theory Spec2Isabelle
  imports Main
begin

section \<open>Python values used by the graph differ\<close>

text \<open>
  The exceptions that the modelled code of \<^verbatim>\<open>bionetgen/tools/gdiff.py\<close> can raise.
  Every raise of the source is a branch returning \<open>Inl\<close> of one of these.
\<close>

datatype error =
    KeyError
  | ValueError
  | TypeError
  | AttributeError
  | IndexError
  | UnboundLocalError
  | RuntimeError

subsection \<open>Decimal rendering and parsing of integers\<close>

text \<open>
  Strings are lists of characters with code points below 128 (the identifiers, labels and
  colours of a graphml file written by BioNetGen are ASCII).
  \<open>str_int\<close> is Python's \<^verbatim>\<open>str(i)\<close> (also what \<^verbatim>\<open>f"{i}"\<close> prints) and
  \<open>py_int\<close> is \<^verbatim>\<open>int(s)\<close> in base ten: surrounding white space is dropped, one sign is
  allowed, single underscores may separate digits, anything else is a \<^verbatim>\<open>ValueError\<close>.
\<close>

definition digit_char :: "nat \<Rightarrow> char" where
  "digit_char d = char_of (48 + d)"

definition is_digit :: "char \<Rightarrow> bool" where
  "is_digit c = (48 \<le> (of_char c :: nat) \<and> (of_char c :: nat) \<le> 57)"

definition digit_val :: "char \<Rightarrow> nat" where
  "digit_val c = (of_char c :: nat) - 48"

fun string_of_nat :: "nat \<Rightarrow> string" where
  "string_of_nat n =
     (if n < 10 then [digit_char n]
      else string_of_nat (n div 10) @ [digit_char (n mod 10)])"

declare string_of_nat.simps [simp del]

definition str_int :: "int \<Rightarrow> string" where
  "str_int i =
     (if i < 0 then CHR ''-'' # string_of_nat (nat (- i)) else string_of_nat (nat i))"

definition is_space :: "char \<Rightarrow> bool" where
  "is_space c =
     (let k = (of_char c :: nat) in (9 \<le> k \<and> k \<le> 13) \<or> (28 \<le> k \<and> k \<le> 32))"

definition strip :: "string \<Rightarrow> string" where
  "strip s = rev (dropWhile is_space (rev (dropWhile is_space s)))"

fun digits_val :: "nat \<Rightarrow> string \<Rightarrow> nat option" where
  "digits_val acc [] = Some acc"
| "digits_val acc (c # cs) =
     (if is_digit c then digits_val (acc * 10 + digit_val c) cs
      else if c = CHR ''_'' \<and> cs \<noteq> [] \<and> is_digit (hd cs) then digits_val acc cs
      else None)"

definition unsigned_val :: "string \<Rightarrow> nat option" where
  "unsigned_val t =
     (case t of [] \<Rightarrow> None | c # cs \<Rightarrow> if is_digit c then digits_val 0 t else None)"

definition py_int :: "string \<Rightarrow> error + int" where
  "py_int s =
     (let t = strip s;
          neg = (t \<noteq> [] \<and> hd t = CHR ''-'');
          body = (if t \<noteq> [] \<and> (hd t = CHR ''-'' \<or> hd t = CHR ''+'') then tl t else t)
      in case unsigned_val body of
           None \<Rightarrow> Inl ValueError
         | Some n \<Rightarrow> Inr (if neg then - int n else int n))"

subsection \<open>Splitting and joining on the path separator\<close>

text \<open>
  \<open>split_sep s\<close> is \<^verbatim>\<open>s.split("::")\<close>: the separator is matched from the left, without
  overlap. \<open>join_sep\<close> is \<^verbatim>\<open>"::".join(xs)\<close>.
\<close>

fun prepend_char :: "char \<Rightarrow> string list \<Rightarrow> string list" where
  "prepend_char c [] = [[c]]"
| "prepend_char c (s # ss) = (c # s) # ss"

fun split_sep :: "string \<Rightarrow> string list" where
  "split_sep [] = [[]]"
| "split_sep [c] = [[c]]"
| "split_sep (c # d # cs) =
     (if c = CHR '':'' \<and> d = CHR '':'' then [] # split_sep cs
      else prepend_char c (split_sep (d # cs)))"

fun join_sep :: "string list \<Rightarrow> string" where
  "join_sep [] = []"
| "join_sep [x] = x"
| "join_sep (x # y # ys) = x @ ''::'' @ join_sep (y # ys)"

subsection \<open>Hierarchical identifiers\<close>

text \<open>
  \<^verbatim>\<open>_get_id_list\<close> splits an identifier such as \<^verbatim>\<open>n0::n3::n1\<close> on \<^verbatim>\<open>::\<close>, drops the
  first character of every segment and reads the rest as an integer;
  \<^verbatim>\<open>_get_id_str\<close> renders a list of integers back.
\<close>

fun all_or_error :: "(error + 'a) list \<Rightarrow> error + 'a list" where
  "all_or_error [] = Inr []"
| "all_or_error (r # rs) =
     (case r of
        Inl e \<Rightarrow> Inl e
      | Inr v \<Rightarrow> (case all_or_error rs of Inl e \<Rightarrow> Inl e | Inr vs \<Rightarrow> Inr (v # vs)))"

definition get_id_list :: "string \<Rightarrow> error + int list" where
  "get_id_list idstr = all_or_error (map (\<lambda>x. py_int (drop 1 x)) (split_sep idstr))"

definition get_id_str :: "int list \<Rightarrow> string" where
  "get_id_str id_list = join_sep (map (\<lambda>i. CHR ''n'' # str_int i) id_list)"

section \<open>The graph document model\<close>

text \<open>
  A document is what \<^verbatim>\<open>xmltodict.parse\<close> returns for a graphml file: nested dictionaries
  in which an element that occurs once is a dictionary and an element that occurs several
  times is a list. The model keeps that distinction wherever the code tests it
  (\<^verbatim>\<open>isinstance(..., list)\<close>) and keeps every key whose absence raises.

  The style block of a node (\<^verbatim>\<open>y:GroupNode\<close> or \<^verbatim>\<open>y:ShapeNode\<close>) is reduced to the
  three attributes the code reads or writes: the label text, the fill colour and the
  label's font size; a style block is taken to carry all three. Where the data of a node
  are a list and \<^verbatim>\<open>y:GroupNode\<close> or \<^verbatim>\<open>y:ShapeNode\<close> is a list too, the code works on its
  first entry; the model stores that entry.
\<close>

record props =
  label_text :: string
  fill_color :: string
  font_size :: string

datatype datum = ProxyAutoBoundsNode props | ShapeNode props | OtherDatum

datatype data = DataDict datum | DataList "datum list"

record edge =
  edge_id :: string
  edge_source :: "string option"
  edge_target :: "string option"

datatype edges = NoEdge | OneEdge edge | EdgeList "edge list"

datatype 'n kids = Single 'n | Many "'n list"

datatype 'n graph = Graph (gid: "string option") (gnode: "'n kids option") (gedge: edges)

datatype node = Node (nid: "string option") (ndata: "data option") (ngraph: "node graph option")

text \<open>
  A whole document \<^verbatim>\<open>g\<close> is represented by its root container \<^verbatim>\<open>g["graphml"]\<close>, a node
  without identifier and without data. A colour table has the three keys \<^verbatim>\<open>g1\<close>,
  \<^verbatim>\<open>g2\<close> and \<^verbatim>\<open>intersect\<close>, each a list indexed by colour class.
\<close>

record palette =
  pal_g1 :: "string list"
  pal_g2 :: "string list"
  pal_intersect :: "string list"

type_synonym rename_map = "string option \<rightharpoonup> string option"

type_synonym loc = "nat list"

subsection \<open>Reading and writing the style block\<close>

fun datum_props :: "datum \<Rightarrow> props option" where
  "datum_props (ProxyAutoBoundsNode p) = Some p"
| "datum_props (ShapeNode p) = Some p"
| "datum_props OtherDatum = None"

fun map_datum :: "(props \<Rightarrow> props) \<Rightarrow> datum \<Rightarrow> datum" where
  "map_datum f (ProxyAutoBoundsNode p) = ProxyAutoBoundsNode (f p)"
| "map_datum f (ShapeNode p) = ShapeNode (f p)"
| "map_datum f OtherDatum = OtherDatum"

text \<open>In a list of data the loop of \<^verbatim>\<open>_get_node_properties\<close> has no \<^verbatim>\<open>break\<close>: the last
  datum with a style block wins.\<close>

fun last_props :: "datum list \<Rightarrow> props option \<Rightarrow> props option" where
  "last_props [] acc = acc"
| "last_props (d # ds) acc =
     last_props ds (case datum_props d of None \<Rightarrow> acc | Some p \<Rightarrow> Some p)"

definition get_node_properties :: "node \<Rightarrow> error + props" where
  "get_node_properties node =
     (case ndata node of
        None \<Rightarrow> Inl KeyError
      | Some (DataList ds) \<Rightarrow>
          (case last_props ds None of None \<Rightarrow> Inl RuntimeError | Some p \<Rightarrow> Inr p)
      | Some (DataDict d) \<Rightarrow>
          (case datum_props d of None \<Rightarrow> Inl RuntimeError | Some p \<Rightarrow> Inr p))"

text \<open>
  The dictionary returned by \<^verbatim>\<open>_get_node_properties\<close> is a reference into the node, and
  the code writes through it. \<open>map_props f\<close> is that write: it changes the style block
  that \<open>get_node_properties\<close> returns and nothing else.
\<close>

fun map_last_props :: "(props \<Rightarrow> props) \<Rightarrow> datum list \<Rightarrow> datum list" where
  "map_last_props f [] = []"
| "map_last_props f (d # ds) =
     (if list_ex (\<lambda>x. datum_props x \<noteq> None) ds then d # map_last_props f ds
      else map_datum f d # ds)"

fun map_data :: "(props \<Rightarrow> props) \<Rightarrow> data \<Rightarrow> data" where
  "map_data f (DataDict d) = DataDict (map_datum f d)"
| "map_data f (DataList ds) = DataList (map_last_props f ds)"

definition map_props :: "(props \<Rightarrow> props) \<Rightarrow> node \<Rightarrow> node" where
  "map_props f node = Node (nid node) (map_option (map_data f) (ndata node)) (ngraph node)"

definition get_node_name :: "node \<Rightarrow> error + string" where
  "get_node_name node =
     (case get_node_properties node of Inl e \<Rightarrow> Inl e | Inr p \<Rightarrow> Inr (label_text p))"

definition get_node_color :: "node \<Rightarrow> error + string" where
  "get_node_color node =
     (case get_node_properties node of Inl e \<Rightarrow> Inl e | Inr p \<Rightarrow> Inr (fill_color p))"

definition resize_node_font :: "node \<Rightarrow> int \<Rightarrow> error + node" where
  "resize_node_font node sz =
     (case get_node_properties node of
        Inl e \<Rightarrow> Inl e
      | Inr p \<Rightarrow> Inr (map_props (\<lambda>p. p\<lparr>font_size := str_int sz\<rparr>) node))"

definition get_font_size :: "node \<Rightarrow> error + int" where
  "get_font_size node =
     (case get_node_properties node of Inl e \<Rightarrow> Inl e | Inr p \<Rightarrow> py_int (font_size p))"

definition get_color_id :: "node \<Rightarrow> error + nat" where
  "get_color_id node =
     (case get_node_color node of
        Inl e \<Rightarrow> Inl e
      | Inr curr_color \<Rightarrow>
          if curr_color = ''#D2D2D2'' then Inr 0
          else if curr_color = ''#FFFFFF'' then Inr 1
          else if curr_color = ''#FFCC00'' then Inr 2
          else Inl RuntimeError)"

definition color_node :: "node \<Rightarrow> string \<Rightarrow> error + node" where
  "color_node node color =
     (case get_node_properties node of
        Inl e \<Rightarrow> Inl e
      | Inr p \<Rightarrow> Inr (map_props (\<lambda>p. p\<lparr>fill_color := color\<rparr>) node))"

definition color_at :: "string list \<Rightarrow> nat \<Rightarrow> error + string" where
  "color_at cs cid = (if cid < length cs then Inr (cs ! cid) else Inl IndexError)"

text \<open>\<^verbatim>\<open>self._color_node(node, colors[slot][self._get_color_id(node)])\<close>: the class is
  derived first, then the table is indexed, then the node is painted.\<close>

definition paint :: "string list \<Rightarrow> node \<Rightarrow> error + node" where
  "paint cs node =
     (case get_color_id node of
        Inl e \<Rightarrow> Inl e
      | Inr cid \<Rightarrow> (case color_at cs cid of Inl e \<Rightarrow> Inl e | Inr c \<Rightarrow> color_node node c))"

definition get_node_id :: "node \<Rightarrow> string option" where
  "get_node_id node = nid node"

definition set_node_id :: "node \<Rightarrow> string \<Rightarrow> node" where
  "set_node_id node idstr =
     (case nid node of None \<Rightarrow> node | Some _ \<Rightarrow> Node (Some idstr) (ndata node) (ngraph node))"

subsection \<open>Locations\<close>

text \<open>
  Python hands nodes around by reference and mutates them in place. A reference to a node
  of a document is modelled by its location: the list of child indices that leads to it
  from the root (a single child has index 0). \<open>get_at\<close> reads the node at a location
  and \<open>upd_at\<close> is a write through such a reference.
\<close>

fun kid_at :: "node kids \<Rightarrow> nat \<Rightarrow> node option" where
  "kid_at (Single n) i = (if i = 0 then Some n else None)"
| "kid_at (Many ns) i = (if i < length ns then Some (ns ! i) else None)"

fun upd_kid :: "(node \<Rightarrow> node) \<Rightarrow> nat \<Rightarrow> node kids \<Rightarrow> node kids" where
  "upd_kid f i (Single n) = (if i = 0 then Single (f n) else Single n)"
| "upd_kid f i (Many ns) = (if i < length ns then Many (ns[i := f (ns ! i)]) else Many ns)"

definition set_kids :: "node kids \<Rightarrow> node \<Rightarrow> node" where
  "set_kids ks n =
     (case ngraph n of
        None \<Rightarrow> n
      | Some g \<Rightarrow> Node (nid n) (ndata n) (Some (Graph (gid g) (Some ks) (gedge g))))"

definition kids_of :: "node \<Rightarrow> node kids option" where
  "kids_of n = (case ngraph n of None \<Rightarrow> None | Some g \<Rightarrow> gnode g)"

fun get_at :: "node \<Rightarrow> loc \<Rightarrow> node option" where
  "get_at n [] = Some n"
| "get_at n (i # l) =
     (case kids_of n of
        None \<Rightarrow> None
      | Some ks \<Rightarrow> (case kid_at ks i of None \<Rightarrow> None | Some c \<Rightarrow> get_at c l))"

fun upd_at :: "(node \<Rightarrow> node) \<Rightarrow> loc \<Rightarrow> node \<Rightarrow> node" where
  "upd_at f [] n = f n"
| "upd_at f (i # l) n =
     (case kids_of n of None \<Rightarrow> n | Some ks \<Rightarrow> set_kids (upd_kid (upd_at f l) i ks) n)"

subsection \<open>Path resolver\<close>

text \<open>
  \<^verbatim>\<open>_get_node_from_names(g, names)\<close>. The loop keeps three variables: \<^verbatim>\<open>nodes\<close>, the
  children currently searched (here with the location of the node they belong to);
  \<^verbatim>\<open>node\<close>, the last node matched, unbound until the first match (\<open>None\<close> here);
  and \<^verbatim>\<open>found\<close>, reset at every path segment. A segment that is not matched does not
  stop the loop: the next segment is looked for among the same \<^verbatim>\<open>nodes\<close>.
  When \<^verbatim>\<open>nodes\<close> is a single dictionary the test \<^verbatim>\<open>"graph" in node.keys()\<close> is made
  whether or not the label matched, so it reads \<^verbatim>\<open>node\<close> even when it is unbound.
  The result is the matched node with its location, or \<open>None\<close>.
\<close>

definition child_nodes :: "node \<Rightarrow> error + node kids" where
  "child_nodes n =
     (case ngraph n of
        None \<Rightarrow> Inl KeyError
      | Some g \<Rightarrow> (case gnode g of None \<Rightarrow> Inl KeyError | Some ks \<Rightarrow> Inr ks))"

fun scan_nodes :: "string \<Rightarrow> nat \<Rightarrow> node list \<Rightarrow> error + (nat \<times> node) option" where
  "scan_nodes key i [] = Inr None"
| "scan_nodes key i (c # cs) =
     (case get_node_name c of
        Inl e \<Rightarrow> Inl e
      | Inr cname \<Rightarrow> if cname = key then Inr (Some (i, c)) else scan_nodes key (Suc i) cs)"

definition descend :: "loc \<times> node \<Rightarrow> loc \<times> node kids \<Rightarrow> error + loc \<times> node kids" where
  "descend cur nodes =
     (case ngraph (snd cur) of
        None \<Rightarrow> Inr nodes
      | Some g \<Rightarrow> (case gnode g of None \<Rightarrow> Inl KeyError | Some ks \<Rightarrow> Inr (fst cur, ks)))"

fun resolve_loop ::
  "loc \<times> node kids \<Rightarrow> (loc \<times> node) option \<Rightarrow> bool \<Rightarrow> string list \<Rightarrow> error + (loc \<times> node) option"
where
  "resolve_loop nodes cur found [] = Inr (if found then cur else None)"
| "resolve_loop nodes cur found (key # rest) =
     (case snd nodes of
        Many ns \<Rightarrow>
          (case scan_nodes key 0 ns of
             Inl e \<Rightarrow> Inl e
           | Inr None \<Rightarrow> resolve_loop nodes cur False rest
           | Inr (Some (i, c)) \<Rightarrow>
               (case descend (fst nodes @ [i], c) nodes of
                  Inl e \<Rightarrow> Inl e
                | Inr nodes' \<Rightarrow> resolve_loop nodes' (Some (fst nodes @ [i], c)) True rest))
      | Single n \<Rightarrow>
          (case get_node_name n of
             Inl e \<Rightarrow> Inl e
           | Inr cname \<Rightarrow>
               (case (if cname = key then Some (fst nodes @ [0], n) else cur) of
                  None \<Rightarrow> Inl UnboundLocalError
                | Some c \<Rightarrow>
                    (case descend c nodes of
                       Inl e \<Rightarrow> Inl e
                     | Inr nodes' \<Rightarrow> resolve_loop nodes' (Some c) (cname = key) rest))))"

definition get_node_from_names :: "node \<Rightarrow> string list \<Rightarrow> error + (loc \<times> node) option" where
  "get_node_from_names g names =
     (case child_nodes g of
        Inl e \<Rightarrow> Inl e
      | Inr nodes \<Rightarrow>
          if names = [] then Inr (Some ([], g)) else resolve_loop ([], nodes) None False names)"

subsection \<open>The explicit-stack walk\<close>

text \<open>
  \<^verbatim>\<open>_find_diff\<close>, \<^verbatim>\<open>_find_diff_union\<close>, \<^verbatim>\<open>_recolor_graph\<close>, \<^verbatim>\<open>_resize_fonts\<close> and
  \<^verbatim>\<open>_add_node_to_graph\<close> each contain the same loop: pop an entry
  \<^verbatim>\<open>(keys, names, node)\<close> from the end of a stack, visit the node, then push its children
  in order, each with its own label appended to \<^verbatim>\<open>names\<close>. \<open>walk act\<close> is that loop with
  the visit as a parameter. Pushing reads \<^verbatim>\<open>@id\<close> and the label of every child
  (\<open>push_check\<close>); since entries are popped from the end, the last child and everything
  below it is visited before the child before it (\<open>walk_kids\<close>).

  A visit changes the identifier and data of the visited node only, never its children,
  so the walk returns the node rebuilt from the visits; \<open>'s\<close> is the state the visits
  thread through (a rename map, a document being extended).
\<close>

fun push_check :: "node list \<Rightarrow> error + unit" where
  "push_check [] = Inr ()"
| "push_check (c # cs) =
     (case nid c of
        None \<Rightarrow> Inl KeyError
      | Some _ \<Rightarrow> (case get_node_name c of Inl e \<Rightarrow> Inl e | Inr _ \<Rightarrow> push_check cs))"

fun walk ::
  "(string list \<Rightarrow> loc \<Rightarrow> node \<Rightarrow> 's \<Rightarrow> error + node \<times> 's) \<Rightarrow>
     string list \<Rightarrow> loc \<Rightarrow> node \<Rightarrow> 's \<Rightarrow> error + node \<times> 's"
and walk_kids ::
  "(string list \<Rightarrow> loc \<Rightarrow> node \<Rightarrow> 's \<Rightarrow> error + node \<times> 's) \<Rightarrow>
     string list \<Rightarrow> loc \<Rightarrow> nat \<Rightarrow> node list \<Rightarrow> 's \<Rightarrow> error + node list \<times> 's"
where
  "walk act names l (Node i d None) s =
     (case act names l (Node i d None) s of
        Inl e \<Rightarrow> Inl e
      | Inr (n', s1) \<Rightarrow> Inr (Node (nid n') (ndata n') None, s1))"
| "walk act names l (Node i d (Some (Graph gi None es))) s =
     (case act names l (Node i d (Some (Graph gi None es))) s of
        Inl e \<Rightarrow> Inl e
      | Inr (n', s1) \<Rightarrow> Inl KeyError)"
| "walk act names l (Node i d (Some (Graph gi (Some (Single c)) es))) s =
     (case act names l (Node i d (Some (Graph gi (Some (Single c)) es))) s of
        Inl e \<Rightarrow> Inl e
      | Inr (n', s1) \<Rightarrow>
          (case push_check [c] of
             Inl e \<Rightarrow> Inl e
           | Inr _ \<Rightarrow>
               (case get_node_name c of
                  Inl e \<Rightarrow> Inl e
                | Inr nm \<Rightarrow>
                    (case walk act (names @ [nm]) (l @ [0]) c s1 of
                       Inl e \<Rightarrow> Inl e
                     | Inr (c', s2) \<Rightarrow>
                         Inr (Node (nid n') (ndata n') (Some (Graph gi (Some (Single c')) es)), s2)))))"
| "walk act names l (Node i d (Some (Graph gi (Some (Many cs)) es))) s =
     (case act names l (Node i d (Some (Graph gi (Some (Many cs)) es))) s of
        Inl e \<Rightarrow> Inl e
      | Inr (n', s1) \<Rightarrow>
          (case push_check cs of
             Inl e \<Rightarrow> Inl e
           | Inr _ \<Rightarrow>
               (case walk_kids act names l 0 cs s1 of
                  Inl e \<Rightarrow> Inl e
                | Inr (cs', s2) \<Rightarrow>
                    Inr (Node (nid n') (ndata n') (Some (Graph gi (Some (Many cs')) es)), s2))))"
| "walk_kids act names l k [] s = Inr ([], s)"
| "walk_kids act names l k (c # cs) s =
     (case walk_kids act names l (Suc k) cs s of
        Inl e \<Rightarrow> Inl e
      | Inr (cs', s1) \<Rightarrow>
          (case get_node_name c of
             Inl e \<Rightarrow> Inl e
           | Inr nm \<Rightarrow>
               (case walk act (names @ [nm]) (l @ [k]) c s1 of
                  Inl e \<Rightarrow> Inl e
                | Inr (c', s2) \<Rightarrow> Inr (c' # cs', s2))))"

section \<open>The diff engine\<close>

text \<open>
  The object \<^verbatim>\<open>self\<close> of class \<^verbatim>\<open>BNGGdiff\<close>: the two parsed inputs, the two recoloured
  copies (attributes that do not exist before the first diff) and the mode.
  \<^verbatim>\<open>run\<close> passes \<^verbatim>\<open>self.gdict_1\<close> and \<^verbatim>\<open>self.gdict_2\<close> themselves to \<^verbatim>\<open>diff_graphs\<close>,
  so the arguments \<^verbatim>\<open>g1\<close> and \<^verbatim>\<open>g2\<close> of the methods below are references to these two
  fields; \<open>docref\<close> names which. A method returns its result together with the object
  as it has left it; an exception aborts the run.
\<close>

datatype mode = MatrixMode | UnionMode

record engine =
  gdict_1 :: node
  gdict_2 :: node
  gdict_1_recolor :: "node option"
  gdict_2_recolor :: "node option"
  run_mode :: mode

datatype docref = Gdict1 | Gdict2

fun deref :: "engine \<Rightarrow> docref \<Rightarrow> node" where
  "deref self Gdict1 = gdict_1 self"
| "deref self Gdict2 = gdict_2 self"

definition init :: "node \<Rightarrow> node \<Rightarrow> mode \<Rightarrow> engine" where
  "init inp1 inp2 m =
     \<lparr>gdict_1 = inp1, gdict_2 = inp2, gdict_1_recolor = None, gdict_2_recolor = None,
      run_mode = m\<rparr>"

definition self_colors :: palette where
  "self_colors =
     \<lparr>pal_g1 = [''#dadbfd'', ''#e6e7fe'', ''#f3f3ff''],
      pal_g2 = [''#ff9e81'', ''#ffbfaa'', ''#ffdfd4''],
      pal_intersect = [''#c4ed9e'', ''#d9f4be'', ''#ecf9df'']\<rparr>"

subsection \<open>Cosmetic passes\<close>

definition recolor_visit ::
  "string list \<Rightarrow> string list \<Rightarrow> loc \<Rightarrow> node \<Rightarrow> unit \<Rightarrow> error + node \<times> unit" where
  "recolor_visit color_list curr_names l curr_node u =
     (if curr_names = [] then Inr (curr_node, u)
      else case paint color_list curr_node of Inl e \<Rightarrow> Inl e | Inr n' \<Rightarrow> Inr (n', u))"

definition recolor_graph :: "node \<Rightarrow> string list \<Rightarrow> error + node" where
  "recolor_graph g color_list =
     (case walk (recolor_visit color_list) [] [] g () of
        Inl e \<Rightarrow> Inl e
      | Inr (recol_g, _) \<Rightarrow> Inr recol_g)"

definition resize_visit ::
  "int \<Rightarrow> string list \<Rightarrow> loc \<Rightarrow> node \<Rightarrow> unit \<Rightarrow> error + node \<times> unit" where
  "resize_visit add_to_font curr_names l curr_node u =
     (if curr_names = [] then Inr (curr_node, u)
      else case resize_node_font curr_node add_to_font of
             Inl e \<Rightarrow> Inl e
           | Inr n' \<Rightarrow> Inr (n', u))"

definition resize_fonts :: "node \<Rightarrow> int \<Rightarrow> error + node" where
  "resize_fonts g add_to_font =
     (case walk (resize_visit add_to_font) [] [] g () of
        Inl e \<Rightarrow> Inl e
      | Inr (g', _) \<Rightarrow> Inr g')"

subsection \<open>Differ\<close>

text \<open>
  \<^verbatim>\<open>_find_diff\<close> walks \<^verbatim>\<open>g1\<close> and its deep copy \<^verbatim>\<open>dg\<close> in lockstep: the two stacks
  hold the same node of the original and of the copy, and only the copy is painted.
  When a node is visited its copy is still as it was copied, so one node stands for both
  in \<open>diff_visit\<close>, and the walk returns the painted copy.
\<close>

definition diff_visit ::
  "node \<Rightarrow> palette \<Rightarrow> string list \<Rightarrow> loc \<Rightarrow> node \<Rightarrow> rename_map \<Rightarrow> error + node \<times> rename_map"
where
  "diff_visit g2 colors curr_names l curr_node rename_map =
     (let rm = rename_map(get_node_id curr_node \<mapsto> get_node_id curr_node) in
      case get_node_from_names g2 curr_names of
        Inl e \<Rightarrow> Inl e
      | Inr g2node \<Rightarrow>
          if curr_names = [] then Inr (curr_node, rm)
          else
            (case get_node_name curr_node of
               Inl e \<Rightarrow> Inl e
             | Inr curr_name \<Rightarrow>
                 (case g2node of
                    Some (_, g2n) \<Rightarrow>
                      if ndata g2n \<noteq> None then
                        (case get_node_name g2n of
                           Inl e \<Rightarrow> Inl e
                         | Inr g2name \<Rightarrow>
                             (case paint (if g2name = curr_name then pal_intersect colors
                                          else pal_g1 colors) curr_node of
                                Inl e \<Rightarrow> Inl e
                              | Inr n' \<Rightarrow> Inr (n', rm)))
                      else Inr (curr_node, rm)
                  | None \<Rightarrow>
                      if ndata curr_node \<noteq> None then
                        (case paint (pal_g1 colors) curr_node of
                           Inl e \<Rightarrow> Inl e
                         | Inr n' \<Rightarrow> Inr (n', rm))
                      else Inr (curr_node, rm))))"

definition find_diff ::
  "engine \<Rightarrow> docref \<Rightarrow> docref \<Rightarrow> palette \<Rightarrow> error + (node \<times> rename_map) \<times> engine" where
  "find_diff self g1 g2 colors =
     (case walk (diff_visit (deref self g2) colors) [] [] (deref self g1) Map.empty of
        Inl e \<Rightarrow> Inl e
      | Inr (dg, rename_map) \<Rightarrow>
          (case recolor_graph (gdict_1 self) (pal_g1 self_colors) of
             Inl e \<Rightarrow> Inl e
           | Inr rc1 \<Rightarrow>
               (case recolor_graph (gdict_2 self) (pal_g2 self_colors) of
                  Inl e \<Rightarrow> Inl e
                | Inr rc2 \<Rightarrow>
                    (case resize_fonts (gdict_1 self) 20 of
                       Inl e \<Rightarrow> Inl e
                     | Inr r1 \<Rightarrow>
                         (case resize_fonts (gdict_2 self) 20 of
                            Inl e \<Rightarrow> Inl e
                          | Inr r2 \<Rightarrow>
                              (case resize_fonts dg 20 of
                                 Inl e \<Rightarrow> Inl e
                               | Inr dg' \<Rightarrow>
                                   Inr ((dg', rename_map),
                                        self\<lparr>gdict_1 := r1, gdict_2 := r2,
                                             gdict_1_recolor := Some rc1,
                                             gdict_2_recolor := Some rc2\<rparr>)))))))"

subsection \<open>Merger\<close>

text \<open>
  Lines 587 to 608 of \<^verbatim>\<open>_add_node_to_graph\<close>: the identifier for the inserted node is
  the identifier of the last sibling (of the only sibling, when there is one) with its
  last segment incremented.
\<close>

definition bump_last :: "int list \<Rightarrow> error + string" where
  "bump_last new_id =
     (if new_id = [] then Inl IndexError
      else Inr (get_id_str (butlast new_id @ [last new_id + 1])))"

definition node_id_list :: "node \<Rightarrow> error + int list" where
  "node_id_list n =
     (case get_node_id n of None \<Rightarrow> Inl AttributeError | Some idstr \<Rightarrow> get_id_list idstr)"

fun fresh_id :: "node kids \<Rightarrow> error + string" where
  "fresh_id (Many ns) =
     (case all_or_error (map node_id_list ns) of
        Inl e \<Rightarrow> Inl e
      | Inr node_lists \<Rightarrow> if node_lists = [] then Inl IndexError else bump_last (last node_lists))"
| "fresh_id (Single og) =
     (case node_id_list og of Inl e \<Rightarrow> Inl e | Inr new_id \<Rightarrow> bump_last new_id)"

fun append_child :: "node \<Rightarrow> node kids \<Rightarrow> node kids" where
  "append_child c (Many ns) = Many (ns @ [c])"
| "append_child c (Single og) = Many [og, c]"

text \<open>
  The loop at the end of \<^verbatim>\<open>_add_node_to_graph\<close> walks the inserted copy and gives every
  node below it the colour of the second document and a new identifier: the identifier
  of the node that the resolver finds for its parent's label path in the copy, followed by
  the last segment of its own. The state is the copy itself, written at the location of
  the visited node, and the rename map.
\<close>

definition relabel_visit ::
  "palette \<Rightarrow> string list \<Rightarrow> loc \<Rightarrow> node \<Rightarrow> node \<times> rename_map \<Rightarrow>
     error + node \<times> (node \<times> rename_map)"
where
  "relabel_visit colors curr_names l curr_node st =
     (if curr_names = [] then Inr (curr_node, st)
      else
        (case get_node_from_names (fst st) (butlast curr_names) of
           Inl e \<Rightarrow> Inl e
         | Inr parent_node \<Rightarrow>
             (case paint (pal_g2 colors) curr_node of
                Inl e \<Rightarrow> Inl e
              | Inr painted \<Rightarrow>
                  (case parent_node of
                     None \<Rightarrow> Inl TypeError
                   | Some (_, pn) \<Rightarrow>
                       (case node_id_list pn of
                          Inl e \<Rightarrow> Inl e
                        | Inr new_id \<Rightarrow>
                            (case node_id_list curr_node of
                               Inl e \<Rightarrow> Inl e
                             | Inr curr_id \<Rightarrow>
                                 if curr_id = [] then Inl IndexError
                                 else
                                   (let new_str = get_id_str (new_id @ [last curr_id]);
                                        n' = set_node_id painted new_str
                                    in Inr (n',
                                            (upd_at (\<lambda>m. Node (nid n') (ndata n') (ngraph m)) l (fst st),
                                             (snd st)(Some (get_id_str curr_id) \<mapsto> Some new_str))))))))))"

definition relabel :: "palette \<Rightarrow> node \<Rightarrow> rename_map \<Rightarrow> error + node \<times> rename_map" where
  "relabel colors copied_node rmap =
     (case ngraph copied_node of
        None \<Rightarrow> Inr (copied_node, rmap)
      | Some g \<Rightarrow>
          (case (case gid g of
                   None \<Rightarrow> Inr copied_node
                 | Some _ \<Rightarrow>
                     (case get_node_id copied_node of
                        None \<Rightarrow> Inl TypeError
                      | Some i \<Rightarrow>
                          Inr (Node (nid copied_node) (ndata copied_node)
                                 (Some (Graph (Some (i @ '':'')) (gnode g) (gedge g)))))) of
             Inl e \<Rightarrow> Inl e
           | Inr renamed \<Rightarrow>
               (case walk (relabel_visit colors) [] [] renamed (renamed, rmap) of
                  Inl e \<Rightarrow> Inl e
                | Inr (_, st) \<Rightarrow> Inr st)))"

definition add_node_to_graph ::
  "node \<Rightarrow> node \<Rightarrow> string list \<Rightarrow> palette \<Rightarrow> rename_map \<Rightarrow> error + node \<times> node \<times> rename_map"
where
  "add_node_to_graph node dg names colors rmap =
     (case get_node_from_names dg (butlast names) of
        Inl e \<Rightarrow> Inl e
      | Inr node_to_add_to \<Rightarrow>
          (case paint (pal_g2 colors) node of
             Inl e \<Rightarrow> Inl e
           | Inr copied_node \<Rightarrow>
               (case node_to_add_to of
                  None \<Rightarrow> Inl AttributeError
                | Some (ploc, parent) \<Rightarrow>
                    (case ngraph parent of
                       None \<Rightarrow> Inr (copied_node, dg, rmap)
                     | Some g \<Rightarrow>
                         (case gnode g of
                            None \<Rightarrow> Inl KeyError
                          | Some siblings \<Rightarrow>
                              (case fresh_id siblings of
                                 Inl e \<Rightarrow> Inl e
                               | Inr new_id \<Rightarrow>
                                   (let renamed = set_node_id copied_node new_id;
                                        rmap1 = rmap(get_node_id node \<mapsto> get_node_id renamed)
                                    in case relabel colors renamed rmap1 of
                                         Inl e \<Rightarrow> Inl e
                                       | Inr (final, rmap2) \<Rightarrow>
                                           Inr (final,
                                                upd_at (set_kids (append_child final siblings)) ploc dg,
                                                rmap2))))))))"

definition union_visit ::
  "node \<Rightarrow> palette \<Rightarrow> string list \<Rightarrow> loc \<Rightarrow> node \<Rightarrow> node \<times> rename_map \<Rightarrow>
     error + node \<times> (node \<times> rename_map)"
where
  "union_visit g1 colors curr_names l curr_node st =
     (case get_node_from_names g1 curr_names of
        Inl e \<Rightarrow> Inl e
      | Inr dnode \<Rightarrow>
          if curr_names = [] then Inr (curr_node, st)
          else
            (case dnode of
               None \<Rightarrow>
                 (case get_node_from_names (fst st) curr_names of
                    Inl e \<Rightarrow> Inl e
                  | Inr None \<Rightarrow>
                      (case add_node_to_graph curr_node (fst st) curr_names colors (snd st) of
                         Inl e \<Rightarrow> Inl e
                       | Inr (_, dg', rmap') \<Rightarrow> Inr (curr_node, (dg', rmap')))
                  | Inr (Some (_, dgnode)) \<Rightarrow>
                      Inr (curr_node,
                           (fst st, (snd st)(get_node_id curr_node \<mapsto> get_node_id dgnode))))
             | Some (_, dn) \<Rightarrow>
                 Inr (curr_node, (fst st, (snd st)(get_node_id curr_node \<mapsto> get_node_id dn)))))"

text \<open>
  The edge loop. An edge list that \<^verbatim>\<open>xmltodict\<close> parsed from a single \<^verbatim>\<open><edge>\<close>
  element is a dictionary: iterating it yields its keys, and indexing a key with
  \<^verbatim>\<open>"@source"\<close> is a \<^verbatim>\<open>TypeError\<close>. A graph without edges has no \<^verbatim>\<open>edge\<close> key.
\<close>

definition has_edge :: "edge list \<Rightarrow> string option \<Rightarrow> string option \<Rightarrow> bool" where
  "has_edge ds src tgt =
     list_ex (\<lambda>dedge. (edge_source dedge = src \<and> edge_target dedge = tgt) \<or>
                      (edge_target dedge = src \<and> edge_source dedge = tgt)) ds"

fun add_edges :: "rename_map \<Rightarrow> edge list \<Rightarrow> edge list \<Rightarrow> int \<Rightarrow> error + edge list" where
  "add_edges rename_map [] ds edge_ctr = Inr ds"
| "add_edges rename_map (e # es) ds edge_ctr =
     (case rename_map (edge_source e) of
        None \<Rightarrow> Inl KeyError
      | Some src \<Rightarrow>
          (case rename_map (edge_target e) of
             None \<Rightarrow> Inl KeyError
           | Some tgt \<Rightarrow>
               if has_edge ds src tgt then add_edges rename_map es ds edge_ctr
               else add_edges rename_map es
                      (ds @ [\<lparr>edge_id = ''e'' @ str_int edge_ctr, edge_source = src,
                              edge_target = tgt\<rparr>])
                      (edge_ctr + 1)))"

fun top_edges :: "node \<Rightarrow> edges" where
  "top_edges (Node i d None) = NoEdge"
| "top_edges (Node i d (Some g)) = gedge g"

fun set_top_edges :: "edges \<Rightarrow> node \<Rightarrow> node" where
  "set_top_edges es (Node i d None) = Node i d None"
| "set_top_edges es (Node i d (Some g)) = Node i d (Some (Graph (gid g) (gnode g) es))"

definition merge_edges :: "node \<Rightarrow> node \<Rightarrow> rename_map \<Rightarrow> error + node" where
  "merge_edges dg g2 rename_map =
     (case top_edges dg of
        NoEdge \<Rightarrow> Inl KeyError
      | OneEdge d \<Rightarrow>
          (case top_edges g2 of
             NoEdge \<Rightarrow> Inl KeyError
           | OneEdge e \<Rightarrow> Inl TypeError
           | EdgeList es \<Rightarrow>
               (case es of
                  [] \<Rightarrow> Inr dg
                | e # _ \<Rightarrow>
                    (case rename_map (edge_source e) of
                       None \<Rightarrow> Inl KeyError
                     | Some _ \<Rightarrow>
                         (case rename_map (edge_target e) of
                            None \<Rightarrow> Inl KeyError
                          | Some _ \<Rightarrow> Inl TypeError))))
      | EdgeList ds \<Rightarrow>
          (case top_edges g2 of
             NoEdge \<Rightarrow> Inl KeyError
           | OneEdge e \<Rightarrow> Inl TypeError
           | EdgeList es \<Rightarrow>
               (case add_edges rename_map es ds (int (length ds)) of
                  Inl e \<Rightarrow> Inl e
                | Inr ds' \<Rightarrow> Inr (set_top_edges (EdgeList ds') dg))))"

definition find_diff_union ::
  "engine \<Rightarrow> docref \<Rightarrow> docref \<Rightarrow> palette \<Rightarrow> error + node \<times> engine" where
  "find_diff_union self g1 g2 colors =
     (case find_diff self g1 g2 colors of
        Inl e \<Rightarrow> Inl e
      | Inr ((dg, rename_map), self1) \<Rightarrow>
          (case walk (union_visit (deref self1 g1) colors) [] [] (deref self1 g2)
                  (dg, rename_map) of
             Inl e \<Rightarrow> Inl e
           | Inr (_, (dg1, rename_map1)) \<Rightarrow>
               (case merge_edges dg1 (deref self1 g2) rename_map1 of
                  Inl e \<Rightarrow> Inl e
                | Inr dg2 \<Rightarrow> Inr (dg2, self1))))"

subsection \<open>Top level\<close>

text \<open>
  \<^verbatim>\<open>diff_graphs\<close> returns a dictionary from output file names to documents; the names
  are derived from the input paths and are left out, the documents are kept in the order
  in which the code stores them.
\<close>

datatype graphs =
    MatrixGraphs (out_diff: node) (out_g1_recolored: "node option")
      (out_g2_recolored: "node option") (out_diff_2: node)
  | UnionGraphs (out_union: node)

definition swap_colors :: "palette \<Rightarrow> palette" where
  "swap_colors colors =
     \<lparr>pal_g1 = pal_g2 colors, pal_g2 = pal_g1 colors, pal_intersect = pal_intersect colors\<rparr>"

definition diff_graphs ::
  "engine \<Rightarrow> docref \<Rightarrow> docref \<Rightarrow> palette \<Rightarrow> error + graphs \<times> engine" where
  "diff_graphs self g1 g2 colors =
     (case run_mode self of
        MatrixMode \<Rightarrow>
          (case find_diff self g1 g2 colors of
             Inl e \<Rightarrow> Inl e
           | Inr ((diff_gml, _), self1) \<Rightarrow>
               (case find_diff self1 g2 g1 (swap_colors colors) of
                  Inl e \<Rightarrow> Inl e
                | Inr ((diff_gml_2, _), self2) \<Rightarrow>
                    Inr (MatrixGraphs diff_gml (gdict_1_recolor self1) (gdict_2_recolor self1)
                           diff_gml_2,
                         self2)))
      | UnionMode \<Rightarrow>
          (case find_diff_union self g1 g2 colors of
             Inl e \<Rightarrow> Inl e
           | Inr (union_gml, self1) \<Rightarrow> Inr (UnionGraphs union_gml, self1)))"

definition run :: "engine \<Rightarrow> error + graphs \<times> engine" where
  "run self = diff_graphs self Gdict1 Gdict2 self_colors"

section \<open>Notions used to state the properties\<close>

subsection \<open>Identifiers in canonical form\<close>

text \<open>The number written by a string of decimal digits, and the segments
  \<^verbatim>\<open>n0\<close>, \<^verbatim>\<open>n1\<close>, \<^verbatim>\<open>n17\<close>, ... : the letter \<^verbatim>\<open>n\<close> followed by a number without
  leading zeros.\<close>

definition dec :: "nat \<Rightarrow> string \<Rightarrow> nat" where
  "dec acc ds = foldl (\<lambda>a c. a * 10 + digit_val c) acc ds"

definition canonical_segment :: "string \<Rightarrow> bool" where
  "canonical_segment x =
     (case x of
        [] \<Rightarrow> False
      | c # ds \<Rightarrow>
          c = CHR ''n'' \<and> ds \<noteq> [] \<and> list_all is_digit ds \<and> (hd ds = CHR ''0'' \<longrightarrow> ds = ''0''))"

subsection \<open>Label paths\<close>

text \<open>
  The children of a node in document order, and the node at a label path as section 4.1
  of the specification defines it: at each level the first child whose label is the next
  segment, absent as soon as a segment has no match.
\<close>

fun kid_list :: "'n kids \<Rightarrow> 'n list" where
  "kid_list (Single c) = [c]"
| "kid_list (Many cs) = cs"

definition children :: "node \<Rightarrow> node list" where
  "children n = (case kids_of n of None \<Rightarrow> [] | Some ks \<Rightarrow> kid_list ks)"

fun lookup :: "node \<Rightarrow> string list \<Rightarrow> node option" where
  "lookup n [] = Some n"
| "lookup n (key # rest) =
     (case find (\<lambda>c. get_node_name c = Inr key) (children n) of
        None \<Rightarrow> None
      | Some c \<Rightarrow> lookup c rest)"

subsection \<open>Sample documents\<close>

definition leaf :: "string \<Rightarrow> string \<Rightarrow> string \<Rightarrow> node" where
  "leaf i lbl col =
     Node (Some i)
       (Some (DataDict (ShapeNode \<lparr>label_text = lbl, fill_color = col, font_size = ''12''\<rparr>)))
       None"

definition group :: "string \<Rightarrow> string \<Rightarrow> string \<Rightarrow> node kids \<Rightarrow> node" where
  "group i lbl col ks =
     Node (Some i)
       (Some (DataList [OtherDatum,
                        ProxyAutoBoundsNode
                          \<lparr>label_text = lbl, fill_color = col, font_size = ''12''\<rparr>]))
       (Some (Graph (Some (i @ '':'')) (Some ks) NoEdge))"

definition document :: "node kids \<Rightarrow> edges \<Rightarrow> node" where
  "document ks es = Node None None (Some (Graph (Some ''G'') (Some ks) es))"

text \<open>The two documents of the first scenario of section 8 of the specification: one
  species \<^verbatim>\<open>X\<close>, and one species \<^verbatim>\<open>Y\<close>.\<close>

definition doc_x :: node where
  "doc_x = document (Single (leaf ''n0'' ''X'' ''#D2D2D2'')) NoEdge"

definition doc_y :: node where
  "doc_y = document (Single (leaf ''n0'' ''Y'' ''#D2D2D2'')) NoEdge"

text \<open>A document whose only node has a fill colour that is none of the three
  classification colours (lower case \<^verbatim>\<open>#ffcc00\<close>).\<close>

definition doc_bad :: node where
  "doc_bad = document (Single (leaf ''n0'' ''X'' ''#ffcc00'')) NoEdge"

text \<open>A larger pair of documents: species with components and a state, two edges each.\<close>

definition edges_a :: "edge list" where
  "edges_a =
     [\<lparr>edge_id = ''e0'', edge_source = Some ''n0::n0'', edge_target = Some ''n1::n0''\<rparr>,
      \<lparr>edge_id = ''e1'', edge_source = Some ''n0::n1'', edge_target = Some ''n1::n0''\<rparr>]"

definition doc_a :: node where
  "doc_a = document
     (Many [group ''n0'' ''A'' ''#D2D2D2''
              (Many [leaf ''n0::n0'' ''a1'' ''#FFFFFF'', leaf ''n0::n1'' ''a2'' ''#FFFFFF'']),
            group ''n1'' ''B'' ''#D2D2D2'' (Single (leaf ''n1::n0'' ''b1'' ''#FFFFFF''))])
     (EdgeList edges_a)"


subsection \<open>Results and edges\<close>

text \<open>Whether a call returned rather than raised; the top-level edge list of a document
  when it is a list; the unordered endpoint pair of an edge; the name of the edge numbered
  \<open>k\<close>.\<close>

definition returns :: "error + 'a \<Rightarrow> bool" where
  "returns r = (case r of Inl _ \<Rightarrow> False | Inr _ \<Rightarrow> True)"




text \<open>A pair of documents in which the species \<^verbatim>\<open>X\<close> is a leaf in the first and has two
  components in the second.\<close>

definition edges_l :: "edge list" where
  "edges_l =
     [\<lparr>edge_id = ''e0'', edge_source = Some ''n1::n0'', edge_target = Some ''n1::n1''\<rparr>,
      \<lparr>edge_id = ''e1'', edge_source = Some ''n0'', edge_target = Some ''n1::n0''\<rparr>]"

definition doc_l1 :: node where
  "doc_l1 = document
     (Many [leaf ''n0'' ''X'' ''#D2D2D2'',
            group ''n1'' ''Z'' ''#D2D2D2''
              (Many [leaf ''n1::n0'' ''z1'' ''#FFFFFF'', leaf ''n1::n1'' ''z2'' ''#FFFFFF''])])
     (EdgeList edges_l)"

definition doc_l2 :: node where
  "doc_l2 = document
     (Many [group ''n0'' ''X'' ''#D2D2D2''
              (Many [leaf ''n0::n0'' ''c1'' ''#FFFFFF'', leaf ''n0::n1'' ''c2'' ''#FFFFFF'']),
            group ''n1'' ''Z'' ''#D2D2D2''
              (Many [leaf ''n1::n0'' ''z1'' ''#FFFFFF'', leaf ''n1::n1'' ''z2'' ''#FFFFFF''])])
     (EdgeList edges_l)"

subsection \<open>Documents rebuilt node by node\<close>

text \<open>
  \<open>tmapn f names n\<close> is the node \<open>n\<close>, reached by the label path \<open>names\<close>, in which
  every node takes its identifier and data from \<open>f\<close> applied to its label path and
  itself; the shape, the graph identifiers and the edges stay. \<open>label\<close> is the label of
  a node that has one.
\<close>

definition label :: "node \<Rightarrow> string" where
  "label n = (case get_node_name n of Inl _ \<Rightarrow> [] | Inr nm \<Rightarrow> nm)"

fun tmapn :: "(string list \<Rightarrow> node \<Rightarrow> node) \<Rightarrow> string list \<Rightarrow> node \<Rightarrow> node"
and tmapn_list :: "(string list \<Rightarrow> node \<Rightarrow> node) \<Rightarrow> string list \<Rightarrow> node list \<Rightarrow> node list"
where
  "tmapn f names (Node i d None) =
     Node (nid (f names (Node i d None))) (ndata (f names (Node i d None))) None"
| "tmapn f names (Node i d (Some (Graph gi None es))) =
     Node (nid (f names (Node i d (Some (Graph gi None es)))))
          (ndata (f names (Node i d (Some (Graph gi None es)))))
          (Some (Graph gi None es))"
| "tmapn f names (Node i d (Some (Graph gi (Some (Single c)) es))) =
     Node (nid (f names (Node i d (Some (Graph gi (Some (Single c)) es)))))
          (ndata (f names (Node i d (Some (Graph gi (Some (Single c)) es)))))
          (Some (Graph gi (Some (Single (tmapn f (names @ [label c]) c))) es))"
| "tmapn f names (Node i d (Some (Graph gi (Some (Many cs)) es))) =
     Node (nid (f names (Node i d (Some (Graph gi (Some (Many cs)) es)))))
          (ndata (f names (Node i d (Some (Graph gi (Some (Many cs)) es)))))
          (Some (Graph gi (Some (Many (tmapn_list f names cs))) es))"
| "tmapn_list f names [] = []"
| "tmapn_list f names (c # cs) = tmapn f (names @ [label c]) c # tmapn_list f names cs"

text \<open>What the font pass with delta 20 does to a document: the label of every node below
  the root gets the font size \<^verbatim>\<open>20\<close>.\<close>

definition font_20 :: "string list \<Rightarrow> node \<Rightarrow> node" where
  "font_20 names n = (if names = [] then n else map_props (\<lambda>p. p\<lparr>font_size := ''20''\<rparr>) n)"

definition fonts_set :: "node \<Rightarrow> node" where
  "fonts_set g = tmapn font_20 [] g"

subsection \<open>Well-formed documents\<close>

text \<open>
  \<open>every P n\<close>: \<open>P\<close> holds of \<open>n\<close> and of every node below it, and every nested graph
  has nodes. A node is well-formed when it and every node below it has an identifier and a
  style block with one of the three classification colours and no two of its children have
  the same label. A document is well-formed when its root holds a graph with nodes, all
  well-formed, no two with the same label.
\<close>

fun every :: "(node \<Rightarrow> bool) \<Rightarrow> node \<Rightarrow> bool"
and every_list :: "(node \<Rightarrow> bool) \<Rightarrow> node list \<Rightarrow> bool"
where
  "every P (Node i d None) = P (Node i d None)"
| "every P (Node i d (Some (Graph gi None es))) = False"
| "every P (Node i d (Some (Graph gi (Some (Single c)) es))) =
     (P (Node i d (Some (Graph gi (Some (Single c)) es))) \<and> every P c)"
| "every P (Node i d (Some (Graph gi (Some (Many cs)) es))) =
     (P (Node i d (Some (Graph gi (Some (Many cs)) es))) \<and> every_list P cs)"
| "every_list P [] = True"
| "every_list P (c # cs) = (every P c \<and> every_list P cs)"

definition has_style :: "node \<Rightarrow> bool" where
  "has_style n = (nid n \<noteq> None \<and> returns (get_node_properties n))"

definition unique_labels :: "node \<Rightarrow> bool" where
  "unique_labels n = distinct (map get_node_name (children n))"

definition wf_local :: "node \<Rightarrow> bool" where
  "wf_local n = (nid n \<noteq> None \<and> returns (get_color_id n) \<and> unique_labels n)"

definition wf_node :: "node \<Rightarrow> bool" where
  "wf_node n = every wf_local n"

definition wf_doc :: "node \<Rightarrow> bool" where
  "wf_doc g = (kids_of g \<noteq> None \<and> unique_labels g \<and> list_all wf_node (children g))"


text \<open>A rebuilding function that leaves labels alone, and the node that a visit of
  \<^verbatim>\<open>_find_diff\<close> leaves behind.\<close>

definition keeps_label :: "(string list \<Rightarrow> node \<Rightarrow> node) \<Rightarrow> bool" where
  "keeps_label f = (\<forall>names n. get_node_name (f names n) = get_node_name n)"

definition diff_paint :: "node \<Rightarrow> palette \<Rightarrow> string list \<Rightarrow> node \<Rightarrow> node" where
  "diff_paint g2 colors names n =
     (case diff_visit g2 colors names [] n Map.empty of Inl _ \<Rightarrow> n | Inr (n', _) \<Rightarrow> n')"


text \<open>A node painted with the intersect colour of its class (the root is left alone), and
  the nodes of a document together with the label path that leads to them.\<close>

definition intersect_node :: "palette \<Rightarrow> string list \<Rightarrow> node \<Rightarrow> node" where
  "intersect_node colors names n =
     (if names = [] then n
      else case paint (pal_intersect colors) n of Inl _ \<Rightarrow> n | Inr n' \<Rightarrow> n')"

definition on_path :: "node \<Rightarrow> string list \<Rightarrow> node \<Rightarrow> bool" where
  "on_path g names n = (if names = [] then n = g else lookup g names = Some n)"




text \<open>A document with the font size of every label below the root blanked: two documents
  that agree after blanking differ in font sizes at most.\<close>

definition blank_font :: "string list \<Rightarrow> node \<Rightarrow> node" where
  "blank_font names n = (if names = [] then n else map_props (\<lambda>p. p\<lparr>font_size := []\<rparr>) n)"

definition blank_fonts :: "node \<Rightarrow> node" where
  "blank_fonts g = tmapn blank_font [] g"


section \<open>Identifier strings\<close>

lemma of_char_digit_char: "d < 10 \<Longrightarrow> (of_char (digit_char d) :: nat) = 48 + d"
  by (simp add: digit_char_def)

lemma is_digit_digit_char: "d < 10 \<Longrightarrow> is_digit (digit_char d)"
  by (simp add: is_digit_def of_char_digit_char)

lemma digit_val_digit_char: "d < 10 \<Longrightarrow> digit_val (digit_char d) = d"
  by (simp add: digit_val_def of_char_digit_char)

lemma digit_char_digit_val: "is_digit c \<Longrightarrow> digit_char (digit_val c) = c"
  by (simp add: digit_char_def digit_val_def is_digit_def)

lemma digit_char_0: "digit_char 0 = CHR ''0''"
  unfolding digit_char_def by code_simp

lemma digit_val_pos: "is_digit c \<Longrightarrow> c \<noteq> CHR ''0'' \<Longrightarrow> 0 < digit_val c"
  using digit_char_digit_val [of c] digit_char_0 by (cases "digit_val c = 0") auto

lemma digit_val_less: "is_digit c \<Longrightarrow> digit_val c < 10"
  by (auto simp add: digit_val_def is_digit_def)

lemma dec_simps [simp]: "dec acc [] = acc" "dec acc (c # cs) = dec (acc * 10 + digit_val c) cs"
  "dec acc (ds @ es) = dec (dec acc ds) es"
  by (simp_all add: dec_def)

lemma digits_val_append: "list_all is_digit ds \<Longrightarrow> digits_val acc (ds @ es) = digits_val (dec acc ds) es"
  by (induction ds arbitrary: acc) simp_all

lemma digits_val_all: "list_all is_digit ds \<Longrightarrow> digits_val acc ds = Some (dec acc ds)"
  using digits_val_append [of ds acc "[]"] by simp

lemma string_of_nat_digits: "list_all is_digit (string_of_nat n) \<and> string_of_nat n \<noteq> []"
proof (induction n rule: string_of_nat.induct)
  case (1 n)
  show ?case
  proof (cases "n < 10")
    case True
    then show ?thesis by (simp add: string_of_nat.simps [of n] is_digit_digit_char)
  next
    case False
    with 1 show ?thesis by (simp add: string_of_nat.simps [of n] is_digit_digit_char)
  qed
qed

lemma dec_string_of_nat: "dec 0 (string_of_nat n) = n"
proof (induction n rule: string_of_nat.induct)
  case (1 n)
  show ?case
  proof (cases "n < 10")
    case True
    then show ?thesis by (simp add: string_of_nat.simps [of n] digit_val_digit_char)
  next
    case False
    with 1 show ?thesis by (simp add: string_of_nat.simps [of n] digit_val_digit_char)
  qed
qed

lemma not_space_digit: "is_digit c \<Longrightarrow> \<not> is_space c"
  by (auto simp add: is_digit_def is_space_def Let_def)

lemma digit_not_sign: "is_digit c \<Longrightarrow> c \<noteq> CHR ''-'' \<and> c \<noteq> CHR ''+'' \<and> c \<noteq> CHR '':''"
  by (auto simp add: is_digit_def)

lemma strip_digits: "list_all is_digit ds \<Longrightarrow> strip ds = ds"
proof (cases ds rule: rev_cases)
  case Nil
  then show ?thesis by (simp add: strip_def)
next
  case (snoc ys y)
  assume a: "list_all is_digit ds"
  have 1: "dropWhile is_space ds = ds"
    using a by (cases ds) (simp_all add: not_space_digit)
  have 2: "dropWhile is_space (rev ds) = rev ds"
    using a snoc by (simp add: not_space_digit)
  show ?thesis by (simp add: strip_def 1 2)
qed

lemma py_int_digits:
  assumes "list_all is_digit ds" "ds \<noteq> []"
  shows "py_int ds = Inr (int (dec 0 ds))"
proof -
  obtain c cs where ds: "ds = c # cs" using assms(2) by (cases ds) auto
  have c: "is_digit c" using assms(1) ds by simp
  have u: "unsigned_val ds = Some (dec 0 ds)"
    using digits_val_all [OF assms(1), of 0] c ds by (simp add: unsigned_val_def)
  have h: "hd ds \<noteq> CHR ''-''" "hd ds \<noteq> CHR ''+''"
    using digit_not_sign [OF c] ds by simp_all
  show ?thesis
    unfolding py_int_def strip_digits [OF assms(1)] Let_def using u h by simp
qed

lemma py_int_str_int: "0 \<le> i \<Longrightarrow> py_int (str_int i) = Inr i"
  using py_int_digits [of "string_of_nat (nat i)"] string_of_nat_digits [of "nat i"]
  by (simp add: str_int_def dec_string_of_nat)

lemma split_sep_no_colon: "CHR '':'' \<notin> set x \<Longrightarrow> split_sep x = [x]"
  by (induction x rule: split_sep.induct) auto

lemma split_sep_append: "CHR '':'' \<notin> set x \<Longrightarrow> split_sep (x @ ''::'' @ r) = x # split_sep r"
proof (induction x)
  case Nil
  then show ?case by simp
next
  case (Cons a x)
  then show ?case by (cases x) auto
qed

lemma split_join:
  "segs \<noteq> [] \<Longrightarrow> \<forall>x \<in> set segs. CHR '':'' \<notin> set x \<Longrightarrow> split_sep (join_sep segs) = segs"
proof (induction segs rule: join_sep.induct)
  case 1
  then show ?case by simp
next
  case (2 x)
  then show ?case by (simp add: split_sep_no_colon)
next
  case (3 x y ys)
  then show ?case using split_sep_append [of x "join_sep (y # ys)"] by simp
qed

lemma str_int_no_colon: "0 \<le> i \<Longrightarrow> CHR '':'' \<notin> set (str_int i)"
  using string_of_nat_digits [of "nat i"] digit_not_sign
  by (auto simp add: str_int_def list_all_iff)

lemma all_or_error_map_Inr: "all_or_error (map Inr xs) = Inr xs"
  by (induction xs) simp_all

lemma get_id_list_str:
  assumes "l \<noteq> []" "\<forall>i \<in> set l. 0 \<le> i"
  shows "get_id_list (get_id_str l) = Inr l"
proof -
  let ?segs = "map (\<lambda>i. CHR ''n'' # str_int i) l"
  have a: "split_sep (join_sep ?segs) = ?segs"
    using assms by (intro split_join) (auto simp add: str_int_no_colon)
  have b: "map (\<lambda>x. py_int (drop 1 x)) ?segs = map Inr l"
    using assms(2) by (simp add: py_int_str_int)
  show ?thesis by (simp only: get_id_list_def get_id_str_def a b all_or_error_map_Inr)
qed

lemma string_of_nat_dec_pos:
  "ds \<noteq> [] \<Longrightarrow> list_all is_digit ds \<Longrightarrow> hd ds \<noteq> CHR ''0'' \<Longrightarrow> 0 < dec 0 ds \<and> string_of_nat (dec 0 ds) = ds"
proof (induction ds rule: rev_nonempty_induct)
  case (single x)
  then have "is_digit x" "x \<noteq> CHR ''0''" by simp_all
  then have "0 < digit_val x" by (rule digit_val_pos)
  then show ?case using \<open>is_digit x\<close>
    by (simp add: string_of_nat.simps [of "digit_val x"] digit_val_less digit_char_digit_val)
next
  case (snoc x xs)
  then have ih: "0 < dec 0 xs" "string_of_nat (dec 0 xs) = xs" and x: "is_digit x"
    by (simp_all add: hd_append)
  let ?v = "dec 0 xs * 10 + digit_val x"
  have "\<not> ?v < 10" using ih(1) by simp
  moreover have "?v div 10 = dec 0 xs" "?v mod 10 = digit_val x"
    using digit_val_less [OF x] by simp_all
  ultimately show ?case using ih x
    by (simp add: string_of_nat.simps [of ?v] digit_char_digit_val)
qed

lemma str_int_dec:
  assumes "ds \<noteq> []" "list_all is_digit ds" "hd ds = CHR ''0'' \<longrightarrow> ds = ''0''"
  shows "str_int (int (dec 0 ds)) = ds"
proof (cases "hd ds = CHR ''0''")
  case True
  with assms(3) have "ds = ''0''" by simp
  then have "dec 0 ds = 0" using digit_val_digit_char [of 0] by (simp add: digit_char_0 [symmetric])
  then show ?thesis using \<open>ds = ''0''\<close> by (simp add: str_int_def string_of_nat.simps [of 0] digit_char_0)
next
  case False
  then show ?thesis using string_of_nat_dec_pos [OF assms(1,2)] by (simp add: str_int_def)
qed

lemma canonical_no_colon: "canonical_segment x \<Longrightarrow> CHR '':'' \<notin> set x"
  using digit_not_sign by (cases x) (auto simp add: canonical_segment_def list_all_iff)

lemma canonical_parse:
  "canonical_segment x \<Longrightarrow> \<exists>i. py_int (drop 1 x) = Inr i \<and> CHR ''n'' # str_int i = x"
  by (cases x) (auto simp add: canonical_segment_def py_int_digits str_int_dec)

lemma get_id_str_list:
  assumes "segs \<noteq> []" "\<forall>x \<in> set segs. canonical_segment x"
  shows "\<exists>l. get_id_list (join_sep segs) = Inr l \<and> get_id_str l = join_sep segs"
proof -
  have s: "split_sep (join_sep segs) = segs"
    using assms by (intro split_join) (auto simp add: canonical_no_colon)
  have "\<exists>l. map (\<lambda>x. py_int (drop 1 x)) segs = map Inr l \<and> map (\<lambda>i. CHR ''n'' # str_int i) l = segs"
    using assms(2)
  proof (induction segs)
    case Nil
    then show ?case by simp
  next
    case (Cons a segs)
    then obtain l where l: "map (\<lambda>x. py_int (drop 1 x)) segs = map Inr l" "map (\<lambda>i. CHR ''n'' # str_int i) l = segs"
      by auto
    from Cons.prems obtain i where "py_int (drop 1 a) = Inr i" "CHR ''n'' # str_int i = a"
      using canonical_parse [of a] by auto
    with l show ?case by (intro exI [of _ "i # l"]) simp
  qed
  then obtain l where "map (\<lambda>x. py_int (drop 1 x)) segs = map Inr l" "map (\<lambda>i. CHR ''n'' # str_int i) l = segs"
    by blast
  then show ?thesis
    by (intro exI [of _ l]) (simp only: get_id_list_def get_id_str_def s all_or_error_map_Inr simp_thms)
qed

text \<open>
  C10, first half as stated: rendering a list of non-negative integers and parsing the
  result gives the list back. It fails for the empty list: \<^verbatim>\<open>_get_id_str([])\<close> is the
  empty string, which splits into one empty segment, and \<^verbatim>\<open>int("")\<close> raises
  \<^verbatim>\<open>ValueError\<close>.
\<close>

theorem id_round_trip_empty_counterexample:
  "get_id_list (get_id_str []) = Inl ValueError"
  by (simp add: get_id_list_def get_id_str_def py_int_def strip_def unsigned_val_def)

text \<open>
  C10, amended: for every non-empty list \<open>l\<close> of non-negative integers
  \<^verbatim>\<open>_get_id_list(_get_id_str(l))\<close> is \<open>l\<close>; and for every identifier made of one or
  more canonical segments joined by \<^verbatim>\<open>::\<close>, \<^verbatim>\<open>_get_id_list\<close> succeeds and
  \<^verbatim>\<open>_get_id_str\<close> of its result is the identifier again.
\<close>

theorem id_round_trip:
  "(l \<noteq> [] \<and> (\<forall>i \<in> set l. 0 \<le> i) \<longrightarrow> get_id_list (get_id_str l) = Inr l) \<and>
   (segs \<noteq> [] \<and> (\<forall>x \<in> set segs. canonical_segment x) \<longrightarrow>
      (\<exists>l'. get_id_list (join_sep segs) = Inr l' \<and> get_id_str l' = join_sep segs))"
  using get_id_list_str [of l] get_id_str_list [of segs] by blast

theorem id_round_trip_witness:
  "get_id_list (get_id_str [0, 12, 3]) = Inr [0, 12, 3] \<and>
   (\<exists>l'. get_id_list (join_sep [''n0'', ''n12'', ''n3'']) = Inr l' \<and>
          get_id_str l' = join_sep [''n0'', ''n12'', ''n3''])"
proof -
  have a: "[0, 12, 3] \<noteq> [] \<and> (\<forall>i \<in> set [0, 12, 3 :: int]. 0 \<le> i)" by simp
  have b: "[''n0'', ''n12'', ''n3''] \<noteq> [] \<and>
           (\<forall>x \<in> set [''n0'', ''n12'', ''n3'']. canonical_segment x)"
    by (simp add: canonical_segment_def is_digit_def)
  show ?thesis
    using id_round_trip [of "[0, 12, 3]" "[''n0'', ''n12'', ''n3'']"] a b by blast
qed

section \<open>Colour classes\<close>

text \<open>
  C9: for a node with a style block, \<^verbatim>\<open>_get_color_id\<close> returns class 0 (species) exactly
  for the fill colour \<^verbatim>\<open>#D2D2D2\<close>, class 1 (component) exactly for \<^verbatim>\<open>#FFFFFF\<close> and
  class 2 (state) exactly for \<^verbatim>\<open>#FFCC00\<close>; it returns a class if and only if the colour
  is one of the three; for any other colour it raises, and so does the painting step that
  asked for the class, which then returns no node.
\<close>

theorem color_class_iff:
  assumes "get_node_color node = Inr c"
  shows "(get_color_id node = Inr 0 \<longleftrightarrow> c = ''#D2D2D2'') \<and>
         (get_color_id node = Inr 1 \<longleftrightarrow> c = ''#FFFFFF'') \<and>
         (get_color_id node = Inr 2 \<longleftrightarrow> c = ''#FFCC00'') \<and>
         ((\<exists>cid. get_color_id node = Inr cid) \<longleftrightarrow> c \<in> {''#D2D2D2'', ''#FFFFFF'', ''#FFCC00''}) \<and>
         (\<forall>cid. get_color_id node = Inr cid \<longrightarrow> cid < 3) \<and>
         (c \<notin> {''#D2D2D2'', ''#FFFFFF'', ''#FFCC00''} \<longrightarrow>
            get_color_id node = Inl RuntimeError \<and> paint cs node = Inl RuntimeError)"
  using assms by (simp add: get_color_id_def paint_def)

theorem color_class_iff_witness:
  "get_node_color (leaf ''n0'' ''X'' ''#FFCC00'') = Inr ''#FFCC00'' \<and>
   get_color_id (leaf ''n0'' ''X'' ''#FFCC00'') = Inr 2 \<and>
   get_node_color (leaf ''n0'' ''X'' ''#ffcc00'') = Inr ''#ffcc00'' \<and>
   get_color_id (leaf ''n0'' ''X'' ''#ffcc00'') = Inl RuntimeError \<and>
   (case run (init doc_bad doc_bad MatrixMode) of Inl e \<Rightarrow> e = RuntimeError | Inr _ \<Rightarrow> False)"
proof -
  have a: "get_node_color (leaf ''n0'' ''X'' ''#FFCC00'') = Inr ''#FFCC00''"
    by (simp add: get_node_color_def get_node_properties_def leaf_def)
  have b: "get_node_color (leaf ''n0'' ''X'' ''#ffcc00'') = Inr ''#ffcc00''"
    by (simp add: get_node_color_def get_node_properties_def leaf_def)
  have c: "case run (init doc_bad doc_bad MatrixMode) of
             Inl e \<Rightarrow> e = RuntimeError
           | Inr _ \<Rightarrow> False"
    by code_simp
  show ?thesis
    using color_class_iff [OF a, of "[]"] color_class_iff [OF b, of "[]"] a b c by simp
qed

section \<open>Font sizes\<close>

text \<open>
  C6 says that the font pass with delta 20 turns a font size of 12 into 32. In the code
  \<^verbatim>\<open>_resize_node_font\<close> stores \<^verbatim>\<open>str(size)\<close>: on the document with the single node
  \<^verbatim>\<open>X\<close> of font size 12 the pass returns a document whose node has font size 20.
\<close>

theorem resize_fonts_stores_delta:
  "map get_font_size (children doc_x) = [Inr 12] \<and>
   (case resize_fonts doc_x 20 of
      Inl e \<Rightarrow> False
    | Inr g \<Rightarrow> map get_font_size (children g) = [Inr 20])"
  by code_simp

section \<open>Edges of the merged document\<close>








lemma returns_iff: "returns r \<longleftrightarrow> (\<exists>v. r = Inr v)"
  by (cases r) (simp_all add: returns_def)




lemma find_diff_Inr:
  assumes "find_diff self g1 g2 colors = Inr ((dg, rm), self')"
  obtains dg0 rc1 rc2 r1 r2 where
    "walk (diff_visit (deref self g2) colors) [] [] (deref self g1) Map.empty = Inr (dg0, rm)"
    "recolor_graph (gdict_1 self) (pal_g1 self_colors) = Inr rc1"
    "recolor_graph (gdict_2 self) (pal_g2 self_colors) = Inr rc2"
    "resize_fonts (gdict_1 self) 20 = Inr r1"
    "resize_fonts (gdict_2 self) 20 = Inr r2"
    "resize_fonts dg0 20 = Inr dg"
    "self' = self\<lparr>gdict_1 := r1, gdict_2 := r2, gdict_1_recolor := Some rc1,
                   gdict_2_recolor := Some rc2\<rparr>"
  using assms unfolding find_diff_def by (auto split: sum.splits prod.splits)







section \<open>The walk\<close>

text \<open>Two facts about every walk: it returns when every visit does and the children can
  be pushed; and when the node a visit returns does not depend on the location or the
  state, the walk returns the document rebuilt by \<open>tmapn\<close>.\<close>

lemma walk_total:
  "(\<forall>names l n s. ok names n \<longrightarrow> (\<exists>r. act names l n s = Inr r)) \<Longrightarrow>
   (\<forall>names n c. ok names n \<longrightarrow> c \<in> set (children n) \<longrightarrow>
        nid c \<noteq> None \<and> (\<exists>nm. get_node_name c = Inr nm \<and> ok (names @ [nm]) c)) \<Longrightarrow>
   (\<forall>names n g. ok names n \<longrightarrow> ngraph n = Some g \<longrightarrow> gnode g \<noteq> None) \<Longrightarrow>
   ok names n \<Longrightarrow> \<exists>r. walk act names l n s = Inr r"
  "(\<forall>names l n s. ok names n \<longrightarrow> (\<exists>r. act names l n s = Inr r)) \<Longrightarrow>
   (\<forall>names n c. ok names n \<longrightarrow> c \<in> set (children n) \<longrightarrow>
        nid c \<noteq> None \<and> (\<exists>nm. get_node_name c = Inr nm \<and> ok (names @ [nm]) c)) \<Longrightarrow>
   (\<forall>names n g. ok names n \<longrightarrow> ngraph n = Some g \<longrightarrow> gnode g \<noteq> None) \<Longrightarrow>
   (\<forall>c \<in> set cs. nid c \<noteq> None \<and> (\<exists>nm. get_node_name c = Inr nm \<and> ok (names @ [nm]) c)) \<Longrightarrow>
   \<exists>r. walk_kids act names l k cs s = Inr r"
proof (induction act names l n s and act names l k cs s rule: walk_walk_kids.induct)
  case (1 act names l i d s)
  then obtain r where "act names l (Node i d None) s = Inr r" by blast
  then show ?case by (cases r) simp
next
  case (2 act names l i d gi es s)
  from "2.prems"(3,4) show ?case by fastforce
next
  case (3 act names l i d gi c es s)
  let ?n = "Node i d (Some (Graph gi (Some (Single c)) es))"
  from "3.prems"(1,4) obtain r where a: "act names l ?n s = Inr r" by blast
  obtain r1 s1 where r: "r = (r1, s1)" by (cases r)
  have "c \<in> set (children ?n)" by (simp add: children_def kids_of_def)
  with "3.prems"(2,4) obtain j nm where c: "nid c = Some j" "get_node_name c = Inr nm" "ok (names @ [nm]) c"
    by blast
  then have p: "push_check [c] = Inr ()" by simp
  from "3.IH" [OF a [unfolded r] refl p c(2) "3.prems"(1,2,3) c(3)]
  obtain r' where "walk act (names @ [nm]) (l @ [0]) c s1 = Inr r'" by blast
  then show ?case using a r c by (cases r') simp
next
  case (4 act names l i d gi cs es s)
  let ?n = "Node i d (Some (Graph gi (Some (Many cs)) es))"
  from "4.prems"(1,4) obtain r where a: "act names l ?n s = Inr r" by blast
  obtain r1 s1 where r: "r = (r1, s1)" by (cases r)
  have ch: "children ?n = cs" by (simp add: children_def kids_of_def)
  have cs: "\<forall>c \<in> set cs. nid c \<noteq> None \<and> (\<exists>nm. get_node_name c = Inr nm \<and> ok (names @ [nm]) c)"
    using "4.prems"(2,4) ch by metis
  have p: "push_check cs = Inr ()"
    using cs by (induction cs) auto
  from "4.IH" [OF a [unfolded r] refl p "4.prems"(1,2,3) cs]
  obtain r' where "walk_kids act names l 0 cs s1 = Inr r'" by blast
  then show ?case using a r p by (cases r') simp
next
  case (5 act names l k s)
  then show ?case by simp
next
  case (6 act names l k c cs s)
  from "6.prems"(4) have cs: "\<forall>c \<in> set cs. nid c \<noteq> None \<and> (\<exists>nm. get_node_name c = Inr nm \<and> ok (names @ [nm]) c)"
    by simp
  from "6.IH"(1) [OF "6.prems"(1,2,3) cs] obtain r where a: "walk_kids act names l (Suc k) cs s = Inr r"
    by blast
  obtain r1 s1 where r: "r = (r1, s1)" by (cases r)
  from "6.prems"(4) obtain nm where c: "get_node_name c = Inr nm" "ok (names @ [nm]) c" by auto
  from "6.IH"(2) [OF a [unfolded r] refl c(1) "6.prems"(1,2,3) c(2)]
  obtain r' where "walk act (names @ [nm]) (l @ [k]) c s1 = Inr r'" by blast
  then show ?case using a r c by (cases r') simp
qed

lemma walk_tmapn:
  "(\<forall>names l n s r. act names l n s = Inr r \<longrightarrow>
        nid (fst r) = nid (f names n) \<and> ndata (fst r) = ndata (f names n)) \<Longrightarrow>
   walk act names l n s = Inr (n', s') \<Longrightarrow> n' = tmapn f names n"
  "(\<forall>names l n s r. act names l n s = Inr r \<longrightarrow>
        nid (fst r) = nid (f names n) \<and> ndata (fst r) = ndata (f names n)) \<Longrightarrow>
   walk_kids act names l k cs s = Inr (cs', s') \<Longrightarrow> cs' = tmapn_list f names cs"
proof (induction act names l n s and act names l k cs s arbitrary: n' s' and cs' s'
       rule: walk_walk_kids.induct)
  case (1 act names l i d s)
  from "1.prems"(2) obtain r where a: "act names l (Node i d None) s = Inr r"
    and n: "n' = Node (nid (fst r)) (ndata (fst r)) None"
    by (auto split: sum.splits prod.splits)
  from "1.prems"(1) a have "nid (fst r) = nid (f names (Node i d None))"
    "ndata (fst r) = ndata (f names (Node i d None))" by blast+
  with n show ?case by simp
next
  case (2 act names l i d gi es s)
  then show ?case by (auto split: sum.splits prod.splits)
next
  case (3 act names l i d gi c es s)
  let ?n = "Node i d (Some (Graph gi (Some (Single c)) es))"
  from "3.prems"(2) obtain r u nm where
    a: "act names l ?n s = Inr r" and p: "push_check [c] = Inr u" and nm: "get_node_name c = Inr nm"
    by (auto split: sum.splits prod.splits)
  obtain r1 s1 where r: "r = (r1, s1)" by (cases r)
  from "3.prems"(2) a p nm r obtain c' where
    w: "walk act (names @ [nm]) (l @ [0]) c s1 = Inr (c', s')"
    and n: "n' = Node (nid r1) (ndata r1) (Some (Graph gi (Some (Single c')) es))"
    by (auto split: sum.splits prod.splits)
  have "c' = tmapn f (names @ [nm]) c"
    using "3.IH" [OF a [unfolded r] refl p nm "3.prems"(1) w] .
  moreover have "label c = nm" using nm by (simp add: label_def)
  moreover have "nid r1 = nid (f names ?n)" "ndata r1 = ndata (f names ?n)"
    using "3.prems"(1) a r by (metis fst_conv)+
  ultimately show ?case using n by simp
next
  case (4 act names l i d gi cs es s)
  let ?n = "Node i d (Some (Graph gi (Some (Many cs)) es))"
  from "4.prems"(2) obtain r u where
    a: "act names l ?n s = Inr r" and p: "push_check cs = Inr u"
    by (auto split: sum.splits prod.splits)
  obtain r1 s1 where r: "r = (r1, s1)" by (cases r)
  from "4.prems"(2) a p r obtain cs' where
    w: "walk_kids act names l 0 cs s1 = Inr (cs', s')"
    and n: "n' = Node (nid r1) (ndata r1) (Some (Graph gi (Some (Many cs')) es))"
    by (auto split: sum.splits prod.splits)
  have "cs' = tmapn_list f names cs"
    using "4.IH" [OF a [unfolded r] refl p "4.prems"(1) w] .
  moreover have "nid r1 = nid (f names ?n)" "ndata r1 = ndata (f names ?n)"
    using "4.prems"(1) a r by (metis fst_conv)+
  ultimately show ?case using n by simp
next
  case (5 act names l k s)
  then show ?case by simp
next
  case (6 act names l k c cs s)
  from "6.prems"(2) obtain r nm where
    a: "walk_kids act names l (Suc k) cs s = Inr r" and nm: "get_node_name c = Inr nm"
    by (auto split: sum.splits prod.splits)
  obtain r1 s1 where r: "r = (r1, s1)" by (cases r)
  from "6.prems"(2) a nm r obtain c' where
    w: "walk act (names @ [nm]) (l @ [k]) c s1 = Inr (c', s')" and cs: "cs' = c' # r1"
    by (auto split: sum.splits prod.splits)
  have "r1 = tmapn_list f names cs" using "6.IH"(1) [OF "6.prems"(1) a [unfolded r]] .
  moreover have "c' = tmapn f (names @ [nm]) c"
    using "6.IH"(2) [OF a [unfolded r] refl nm "6.prems"(1) w] .
  moreover have "label c = nm" using nm by (simp add: label_def)
  ultimately show ?case using cs by simp
qed

section \<open>Runs that raise\<close>

text \<open>
  C2 says that after \<^verbatim>\<open>diff(source, other)\<close> every node of the painted copy carries the
  intersect or the source-only colour. On the first scenario of section 8 of the
  specification (source: one species \<^verbatim>\<open>X\<close>; other: one species \<^verbatim>\<open>Y\<close>) the resolver
  reads the variable \<^verbatim>\<open>node\<close> before any assignment, and \<^verbatim>\<open>_find_diff\<close> raises
  \<^verbatim>\<open>UnboundLocalError\<close>: there is no painted copy.
\<close>

theorem diff_scenario_raises:
  "wf_doc doc_x \<and> wf_doc doc_y \<and>
   get_node_from_names doc_y [''X''] = Inl UnboundLocalError \<and>
   (case find_diff (init doc_x doc_y MatrixMode) Gdict1 Gdict2 self_colors of
      Inl e \<Rightarrow> e = UnboundLocalError
    | Inr _ \<Rightarrow> False)"
  by code_simp

text \<open>
  C1 says that the union-mode merge of two well-formed documents holds every label path of
  either. On the same scenario \<^verbatim>\<open>_find_diff_union\<close> raises \<^verbatim>\<open>UnboundLocalError\<close>. On
  a pair of documents where it returns, a species that is a leaf in the first document
  and has components in the second, the components are missing from the result:
  \<^verbatim>\<open>_add_node_to_graph\<close> attaches nothing to a parent without a nested graph.
\<close>

theorem union_scenario_raises:
  "wf_doc doc_x \<and> wf_doc doc_y \<and> wf_doc doc_l1 \<and> wf_doc doc_l2 \<and>
   (case find_diff_union (init doc_x doc_y UnionMode) Gdict1 Gdict2 self_colors of
      Inl e \<Rightarrow> e = UnboundLocalError
    | Inr _ \<Rightarrow> False) \<and>
   lookup doc_l2 [''X'', ''c1''] \<noteq> None \<and>
   (case find_diff_union (init doc_l1 doc_l2 UnionMode) Gdict1 Gdict2 self_colors of
      Inl e \<Rightarrow> False
    | Inr (dg, _) \<Rightarrow> lookup dg [''X'', ''c1''] = None)"
  by code_simp

section \<open>Style blocks and rebuilt documents\<close>

lemma props_data: "get_node_properties (Node i d g) = get_node_properties (Node i' d g')"
  by (simp add: get_node_properties_def)

lemma props_cong: "ndata n = ndata n' \<Longrightarrow> get_node_properties n = get_node_properties n'"
  by (simp add: get_node_properties_def)

lemma name_cong: "ndata n = ndata n' \<Longrightarrow> get_node_name n = get_node_name n'"
  by (simp add: get_node_name_def props_cong [of n n'])

lemma color_cong: "ndata n = ndata n' \<Longrightarrow> get_node_color n = get_node_color n'"
  by (simp add: get_node_color_def props_cong [of n n'])


lemma last_props_acc:
  "last_props ds acc = (case last_props ds None of None \<Rightarrow> acc | Some p \<Rightarrow> Some p)"
proof (induction ds arbitrary: acc)
  case Nil
  then show ?case by simp
next
  case (Cons d ds)
  show ?case
    using Cons.IH [of "case datum_props d of None \<Rightarrow> acc | Some p \<Rightarrow> Some p"]
      Cons.IH [of "case datum_props d of None \<Rightarrow> None | Some p \<Rightarrow> Some p"]
    by (simp split: option.splits)
qed

lemma last_props_ex: "list_ex (\<lambda>x. datum_props x \<noteq> None) ds \<longleftrightarrow> last_props ds None \<noteq> None"
proof (induction ds)
  case Nil
  then show ?case by simp
next
  case (Cons d ds)
  show ?case
    using Cons.IH last_props_acc [of ds "case datum_props d of None \<Rightarrow> None | Some p \<Rightarrow> Some p"]
    by (auto split: option.splits)
qed

lemma datum_props_map: "datum_props (map_datum f d) = map_option f (datum_props d)"
  by (cases d) simp_all

lemma last_props_map:
  "last_props (map_last_props f ds) None = map_option f (last_props ds None)"
proof (induction ds)
  case Nil
  then show ?case by simp
next
  case (Cons d ds)
  show ?case
  proof (cases "list_ex (\<lambda>x. datum_props x \<noteq> None) ds")
    case True
    then obtain p where p: "last_props ds None = Some p"
      using last_props_ex [of ds] by auto
    have "last_props (map_last_props f (d # ds)) None
            = last_props (map_last_props f ds) (case datum_props d of None \<Rightarrow> None | Some p \<Rightarrow> Some p)"
      using True by simp
    also have "\<dots> = Some (f p)"
      using last_props_acc [of "map_last_props f ds"] Cons.IH p by simp
    finally show ?thesis
      using last_props_acc [of ds "case datum_props d of None \<Rightarrow> None | Some p \<Rightarrow> Some p"] p
      by simp
  next
    case False
    then have n: "last_props ds None = None" using last_props_ex [of ds] by simp
    show ?thesis
      using False n
        last_props_acc [of ds "case datum_props d of None \<Rightarrow> None | Some p \<Rightarrow> Some p"]
        last_props_acc [of ds "case datum_props (map_datum f d) of None \<Rightarrow> None | Some p \<Rightarrow> Some p"]
      by (simp add: datum_props_map split: option.splits)
  qed
qed

lemma props_map_props:
  "get_node_properties (map_props f n) =
     (case get_node_properties n of Inl e \<Rightarrow> Inl e | Inr p \<Rightarrow> Inr (f p))"
proof (cases "ndata n")
  case None
  then show ?thesis by (simp add: get_node_properties_def map_props_def)
next
  case (Some dt)
  then show ?thesis
    by (cases dt)
       (auto simp add: get_node_properties_def map_props_def datum_props_map last_props_map
             split: option.splits)
qed

lemma nid_map_props [simp]: "nid (map_props f n) = nid n"
  by (simp add: map_props_def)

lemma ngraph_map_props [simp]: "ngraph (map_props f n) = ngraph n"
  by (simp add: map_props_def)

lemma color_node_Inr:
  "color_node n c = Inr n' \<Longrightarrow>
   n' = map_props (\<lambda>p. p\<lparr>fill_color := c\<rparr>) n \<and> get_node_color n' = Inr c \<and>
   get_node_name n' = get_node_name n \<and> nid n' = nid n"
  by (auto simp add: color_node_def get_node_color_def get_node_name_def props_map_props
           split: sum.splits)

lemma paint_Inr:
  "paint cs n = Inr n' \<Longrightarrow>
   \<exists>cid. get_color_id n = Inr cid \<and> cid < length cs \<and> get_node_color n' = Inr (cs ! cid) \<and>
         get_node_name n' = get_node_name n \<and> nid n' = nid n \<and>
         returns (get_node_properties n')"
  unfolding paint_def color_at_def
  by (auto simp add: color_node_def returns_def props_map_props get_node_color_def get_node_name_def
           split: sum.splits if_splits)

lemma paint_total:
  "get_color_id n = Inr cid \<Longrightarrow> cid < length cs \<Longrightarrow> \<exists>n'. paint cs n = Inr n'"
  unfolding paint_def color_at_def
  by (auto simp add: color_node_def get_color_id_def get_node_color_def split: sum.splits)

lemma children_tmapn: "children (tmapn f names n) = tmapn_list f names (children n)"
  by (cases "(f, names, n)" rule: tmapn.cases) (simp_all add: children_def kids_of_def)

lemma ndata_tmapn: "ndata (tmapn f names n) = ndata (f names n)"
  by (cases "(f, names, n)" rule: tmapn.cases) simp_all

lemma nid_tmapn: "nid (tmapn f names n) = nid (f names n)"
  by (cases "(f, names, n)" rule: tmapn.cases) simp_all

lemma name_tmapn: "keeps_label f \<Longrightarrow> get_node_name (tmapn f names n) = get_node_name n"
  using name_cong [OF ndata_tmapn, of f names n] by (simp add: keeps_label_def)

lemma find_tmapn_list:
  "keeps_label f \<Longrightarrow>
   find (\<lambda>c. get_node_name c = Inr key) (tmapn_list f names cs) =
     map_option (tmapn f (names @ [key])) (find (\<lambda>c. get_node_name c = Inr key) cs)"
  by (induction cs) (auto simp add: name_tmapn label_def)

lemma lookup_tmapn:
  "keeps_label f \<Longrightarrow> lookup (tmapn f names n) p = map_option (tmapn f (names @ p)) (lookup n p)"
proof (induction p arbitrary: names n)
  case Nil
  then show ?case by simp
next
  case (Cons key p)
  show ?case
  proof (cases "find (\<lambda>c. get_node_name c = Inr key) (children n)")
    case None
    then show ?thesis using Cons.prems by (simp add: children_tmapn find_tmapn_list)
  next
    case (Some c)
    then show ?thesis
      using Cons.prems Cons.IH [OF Cons.prems, of "names @ [key]" c]
      by (simp add: children_tmapn find_tmapn_list)
  qed
qed

section \<open>The path resolver on label paths that exist\<close>

lemma scan_find:
  "scan_nodes key i ns = Inr r \<Longrightarrow> map_option snd r = find (\<lambda>c. get_node_name c = Inr key) ns"
  by (induction ns arbitrary: i) (auto split: sum.splits if_splits)

lemma scan_total:
  "\<forall>c \<in> set ns. returns (get_node_name c) \<Longrightarrow> \<exists>r. scan_nodes key i ns = Inr r"
  by (induction ns arbitrary: i) (auto simp add: returns_iff)

lemma find_name: "find (\<lambda>c. get_node_name c = Inr key) cs = Some c \<Longrightarrow> get_node_name c = Inr key \<and> c \<in> set cs"
  by (induction cs) (auto split: if_splits)

text \<open>A label path that leads to a node: the resolver raises or returns that node.\<close>

lemma resolve_lookup:
  "find (\<lambda>c. get_node_name c = Inr key) (kid_list ks) = Some c \<Longrightarrow> lookup c rest = Some m \<Longrightarrow>
   resolve_loop (L, ks) cur found (key # rest) = Inr r \<Longrightarrow> \<exists>L'. r = Some (L', m)"
proof (induction rest arbitrary: key ks c L cur found)
  case Nil
  then have m: "m = c" by simp
  show ?case
  proof (cases ks)
    case (Single n)
    with Nil.prems(1) have "get_node_name n = Inr key" "n = c" by (auto split: if_splits)
    with Nil.prems(3) Single m show ?thesis
      by (auto simp add: descend_def split: sum.splits option.splits)
  next
    case (Many ns)
    with Nil.prems(3) obtain sr where sr: "scan_nodes key 0 ns = Inr sr"
      by (auto split: sum.splits)
    from scan_find [OF sr] Nil.prems(1) Many obtain i where "sr = Some (i, c)" by auto
    with Nil.prems(3) Many sr m show ?thesis
      by (auto simp add: descend_def split: sum.splits option.splits)
  qed
next
  case (Cons key' rest)
  from Cons.prems(2) obtain c' where
    f': "find (\<lambda>x. get_node_name x = Inr key') (children c) = Some c'" and l': "lookup c' rest = Some m"
    by (auto split: option.splits)
  then obtain ks' where ks': "kids_of c = Some ks'" "children c = kid_list ks'"
    by (cases "kids_of c") (auto simp add: children_def)
  then obtain g where g: "ngraph c = Some g" "gnode g = Some ks'"
    by (auto simp add: kids_of_def split: option.splits)
  have d: "\<And>Lc nodes. descend (Lc, c) nodes = Inr (Lc, ks')"
    using g by (simp add: descend_def)
  show ?case
  proof (cases ks)
    case (Single n)
    with Cons.prems(1) have n: "get_node_name n = Inr key" "n = c" by (auto split: if_splits)
    with Cons.prems(3) Single d have
      "resolve_loop (L @ [0], ks') (Some (L @ [0], c)) True (key' # rest) = Inr r"
      by simp
    from Cons.IH [OF _ l' this] f' ks' show ?thesis by simp
  next
    case (Many ns)
    with Cons.prems(3) obtain sr where sr: "scan_nodes key 0 ns = Inr sr"
      by (auto split: sum.splits)
    from scan_find [OF sr] Cons.prems(1) Many obtain i where i: "sr = Some (i, c)" by auto
    with Cons.prems(3) Many sr d have
      "resolve_loop (L @ [i], ks') (Some (L @ [i], c)) True (key' # rest) = Inr r"
      by simp
    from Cons.IH [OF _ l' this] f' ks' show ?thesis by simp
  qed
qed

text \<open>In a subtree where every node has a label and every nested graph has nodes the
  resolver does not raise on a label path that leads to a node.\<close>

lemma every_here: "every P n \<Longrightarrow> P n"
  by (cases "(P, n)" rule: every.cases) simp_all

lemma every_list_iff: "every_list P cs \<longleftrightarrow> (\<forall>c \<in> set cs. every P c)"
  by (induction cs) simp_all

lemma every_children: "every P n \<Longrightarrow> c \<in> set (children n) \<Longrightarrow> every P c"
  by (cases "(P, n)" rule: every.cases) (simp_all add: children_def kids_of_def every_list_iff)

lemma every_graph: "every P n \<Longrightarrow> ngraph n = Some g \<Longrightarrow> gnode g \<noteq> None"
  by (cases "(P, n)" rule: every.cases) auto

lemma every_mono:
  "(\<And>n. P n \<Longrightarrow> Q n) \<Longrightarrow> every P n \<Longrightarrow> every Q n"
  "(\<And>n. P n \<Longrightarrow> Q n) \<Longrightarrow> every_list P cs \<Longrightarrow> every_list Q cs"
  by (induction P n and P cs rule: every_every_list.induct) auto

lemma has_style_name: "has_style n \<Longrightarrow> returns (get_node_name n)"
  by (auto simp add: has_style_def returns_iff get_node_name_def)

lemma resolve_total:
  "\<forall>x \<in> set (kid_list ks). every has_style x \<Longrightarrow>
   find (\<lambda>c. get_node_name c = Inr key) (kid_list ks) = Some c \<Longrightarrow> lookup c rest = Some m \<Longrightarrow>
   \<exists>r. resolve_loop (L, ks) cur found (key # rest) = Inr r"
proof (induction rest arbitrary: key ks c L cur found)
  case Nil
  from find_name [OF Nil.prems(2)] Nil.prems(1) have c: "every has_style c" "get_node_name c = Inr key"
    by auto
  have d: "\<And>Lc nodes. \<exists>r. descend (Lc, c) nodes = Inr r"
    using every_graph [OF c(1)] by (auto simp add: descend_def split: option.splits)
  show ?case
  proof (cases ks)
    case (Single n)
    with Nil.prems(2) have "get_node_name n = Inr key" "n = c" by (auto split: if_splits)
    with Single d [of "L @ [0]" "(L, Single c)"] show ?thesis by auto
  next
    case (Many ns)
    have "\<forall>c \<in> set ns. returns (get_node_name c)"
      using Nil.prems(1) Many every_here has_style_name by auto
    from scan_total [OF this] obtain sr where sr: "scan_nodes key 0 ns = Inr sr" by blast
    from scan_find [OF sr] Nil.prems(2) Many obtain i where "sr = Some (i, c)" by auto
    with Many sr d [of "L @ [i]" "(L, Many ns)"] show ?thesis by auto
  qed
next
  case (Cons key' rest)
  from find_name [OF Cons.prems(2)] Cons.prems(1) have c: "every has_style c" "get_node_name c = Inr key"
    by auto
  from Cons.prems(3) obtain c' where
    f': "find (\<lambda>x. get_node_name x = Inr key') (children c) = Some c'" and l': "lookup c' rest = Some m"
    by (auto split: option.splits)
  then obtain ks' where ks': "kids_of c = Some ks'" "children c = kid_list ks'"
    by (cases "kids_of c") (auto simp add: children_def)
  then obtain g where g: "ngraph c = Some g" "gnode g = Some ks'"
    by (auto simp add: kids_of_def split: option.splits)
  have d: "\<And>Lc nodes. descend (Lc, c) nodes = Inr (Lc, ks')"
    using g by (simp add: descend_def)
  have e: "\<forall>x \<in> set (kid_list ks'). every has_style x"
    using every_children [OF c(1)] ks' by simp
  have f'': "find (\<lambda>x. get_node_name x = Inr key') (kid_list ks') = Some c'"
    using f' ks' by simp
  show ?case
  proof (cases ks)
    case (Single n)
    with Cons.prems(2) have n: "get_node_name n = Inr key" "n = c" by (auto split: if_splits)
    from Cons.IH [OF e f'' l', of "L @ [0]" "Some (L @ [0], c)" True] Single n d
    show ?thesis by simp
  next
    case (Many ns)
    have "\<forall>c \<in> set ns. returns (get_node_name c)"
      using Cons.prems(1) Many every_here has_style_name by auto
    from scan_total [OF this] obtain sr where sr: "scan_nodes key 0 ns = Inr sr" by blast
    from scan_find [OF sr] Cons.prems(2) Many obtain i where i: "sr = Some (i, c)" by auto
    from Cons.IH [OF e f'' l', of "L @ [i]" "Some (L @ [i], c)" True] Many sr i d
    show ?thesis by simp
  qed
qed

lemma get_node_from_names_lookup:
  assumes "lookup g p = Some m" "p \<noteq> []" "get_node_from_names g p = Inr r"
  shows "\<exists>L. r = Some (L, m)"
proof -
  from assms(2) obtain key rest where p: "p = key # rest" by (cases p) auto
  from assms(1) p obtain c where
    f: "find (\<lambda>x. get_node_name x = Inr key) (children g) = Some c" and l: "lookup c rest = Some m"
    by (auto split: option.splits)
  then obtain ks where ks: "kids_of g = Some ks" "children g = kid_list ks"
    by (cases "kids_of g") (auto simp add: children_def)
  then have "child_nodes g = Inr ks"
    by (auto simp add: child_nodes_def kids_of_def split: option.splits)
  with assms(3) p have "resolve_loop ([], ks) None False (key # rest) = Inr r"
    by (simp add: get_node_from_names_def)
  from resolve_lookup [OF _ l this] f ks show ?thesis by simp
qed

lemma get_node_from_names_total:
  assumes "lookup g p = Some m" "p \<noteq> []" "\<forall>x \<in> set (children g). every has_style x"
  shows "\<exists>L. get_node_from_names g p = Inr (Some (L, m))"
proof -
  from assms(2) obtain key rest where p: "p = key # rest" by (cases p) auto
  from assms(1) p obtain c where
    f: "find (\<lambda>x. get_node_name x = Inr key) (children g) = Some c" and l: "lookup c rest = Some m"
    by (auto split: option.splits)
  then obtain ks where ks: "kids_of g = Some ks" "children g = kid_list ks"
    by (cases "kids_of g") (auto simp add: children_def)
  then have cn: "child_nodes g = Inr ks"
    by (auto simp add: child_nodes_def kids_of_def split: option.splits)
  from resolve_total [OF _ _ l, of ks key "[]" None False] f ks assms(3)
  obtain r where "resolve_loop ([], ks) None False (key # rest) = Inr r" by auto
  with cn p have r: "get_node_from_names g p = Inr r" by (simp add: get_node_from_names_def)
  from get_node_from_names_lookup [OF assms(1,2) r] r show ?thesis by auto
qed

section \<open>What the differ paints\<close>

lemma walk_visits:
  "walk act names l n s = Inr r \<Longrightarrow> lookup n p = Some m \<Longrightarrow>
     \<exists>l' s'. returns (act (names @ p) l' m s')"
  "walk_kids act names l k cs s = Inr rs \<Longrightarrow>
     find (\<lambda>c. get_node_name c = Inr key) cs = Some fc \<Longrightarrow> lookup fc p = Some m \<Longrightarrow>
     \<exists>l' s'. returns (act (names @ key # p) l' m s')"
proof (induction act names l n s and act names l k cs s arbitrary: r p m and rs key fc p m
       rule: walk_walk_kids.induct)
  case (1 act names l i d s)
  from "1.prems"(2) have "p = []" "m = Node i d None"
    by (cases p; simp add: children_def kids_of_def)+
  moreover from "1.prems"(1) have "returns (act names l (Node i d None) s)"
    by (auto simp add: returns_def split: sum.splits)
  ultimately show ?case by (intro exI [of _ l] exI [of _ s]) simp
next
  case (2 act names l i d gi es s)
  then show ?case by (auto split: sum.splits prod.splits)
next
  case (3 act names l i d gi c es s)
  let ?n = "Node i d (Some (Graph gi (Some (Single c)) es))"
  from "3.prems"(1) obtain a u nm where
    a: "act names l ?n s = Inr a" and pc: "push_check [c] = Inr u" and nm: "get_node_name c = Inr nm"
    by (auto split: sum.splits prod.splits)
  obtain r1 s1 where a': "a = (r1, s1)" by (cases a)
  from "3.prems"(1) a pc nm a' obtain w where
    w: "walk act (names @ [nm]) (l @ [0]) c s1 = Inr w"
    by (auto split: sum.splits prod.splits)
  show ?case
  proof (cases p)
    case Nil
    with "3.prems"(2) have "m = ?n" by simp
    moreover have "returns (act names l ?n s)" using a by (simp add: returns_def)
    ultimately show ?thesis using Nil by (intro exI [of _ l] exI [of _ s]) simp
  next
    case (Cons key rest)
    with "3.prems"(2) nm have "key = nm" "lookup c rest = Some m"
      by (auto simp add: children_def kids_of_def split: if_splits)
    with "3.IH" [OF a [unfolded a'] refl pc nm w, of rest m] Cons show ?thesis by simp
  qed
next
  case (4 act names l i d gi cs es s)
  let ?n = "Node i d (Some (Graph gi (Some (Many cs)) es))"
  from "4.prems"(1) obtain a u where
    a: "act names l ?n s = Inr a" and pc: "push_check cs = Inr u"
    by (auto split: sum.splits prod.splits)
  obtain r1 s1 where a': "a = (r1, s1)" by (cases a)
  from "4.prems"(1) a pc a' obtain w where
    w: "walk_kids act names l 0 cs s1 = Inr w"
    by (auto split: sum.splits prod.splits)
  show ?case
  proof (cases p)
    case Nil
    with "4.prems"(2) have "m = ?n" by simp
    moreover have "returns (act names l ?n s)" using a by (simp add: returns_def)
    ultimately show ?thesis using Nil by (intro exI [of _ l] exI [of _ s]) simp
  next
    case (Cons key rest)
    with "4.prems"(2) obtain fc where
      "find (\<lambda>c. get_node_name c = Inr key) cs = Some fc" "lookup fc rest = Some m"
      by (auto simp add: children_def kids_of_def split: option.splits)
    with "4.IH" [OF a [unfolded a'] refl pc w, of key fc rest m] Cons show ?thesis by simp
  qed
next
  case (5 act names l k s)
  then show ?case by simp
next
  case (6 act names l k c cs s)
  from "6.prems"(1) obtain a nm where
    a: "walk_kids act names l (Suc k) cs s = Inr a" and nm: "get_node_name c = Inr nm"
    by (auto split: sum.splits prod.splits)
  obtain r1 s1 where a': "a = (r1, s1)" by (cases a)
  from "6.prems"(1) a nm a' obtain w where
    w: "walk act (names @ [nm]) (l @ [k]) c s1 = Inr w"
    by (auto split: sum.splits prod.splits)
  show ?case
  proof (cases "nm = key")
    case True
    with "6.prems"(2,3) nm have "lookup c p = Some m" by simp
    from "6.IH"(2) [OF a [unfolded a'] refl nm w this] True show ?thesis by simp
  next
    case False
    with "6.prems"(2) nm have "find (\<lambda>c. get_node_name c = Inr key) cs = Some fc" by simp
    from "6.IH"(1) [OF a [unfolded a'] this "6.prems"(3)] show ?thesis .
  qed
qed

lemma str_int_20: "str_int 20 = ''20''"
  by code_simp

lemma name_map_props_font:
  "get_node_name (map_props (\<lambda>p. p\<lparr>font_size := x\<rparr>) n) = get_node_name n"
  by (simp add: get_node_name_def props_map_props split: sum.splits)

lemma color_map_props_font:
  "get_node_color (map_props (\<lambda>p. p\<lparr>font_size := x\<rparr>) n) = get_node_color n"
  by (simp add: get_node_color_def props_map_props split: sum.splits)

lemma keeps_label_font_20: "keeps_label font_20"
  by (simp add: keeps_label_def font_20_def name_map_props_font)

lemma resize_visit_char:
  "resize_visit 20 names l n s = Inr r \<Longrightarrow>
   nid (fst r) = nid (font_20 names n) \<and> ndata (fst r) = ndata (font_20 names n)"
  by (auto simp add: resize_visit_def font_20_def resize_node_font_def str_int_20
           split: if_splits sum.splits)

lemma resize_fonts_eq: "resize_fonts g 20 = Inr g' \<Longrightarrow> g' = fonts_set g"
proof -
  assume "resize_fonts g 20 = Inr g'"
  then obtain u where w: "walk (resize_visit 20) [] [] g () = Inr (g', u)"
    by (auto simp add: resize_fonts_def split: sum.splits prod.splits)
  show ?thesis
    unfolding fonts_set_def
    by (rule walk_tmapn(1) [OF _ w]) (use resize_visit_char in blast)
qed

lemma diff_visit_map:
  "diff_visit g2 colors names l n s =
     map_sum id (\<lambda>r. (fst r, s(get_node_id n \<mapsto> get_node_id n)))
       (diff_visit g2 colors names [] n Map.empty)"
  unfolding diff_visit_def Let_def
  by (auto split: sum.split option.split prod.split)

lemma diff_visit_indep:
  "diff_visit g2 colors names l n s = Inr r \<Longrightarrow>
   diff_visit g2 colors names l' n s' = Inr (fst r, s'(get_node_id n \<mapsto> get_node_id n))"
  using diff_visit_map [of g2 colors names l n s] diff_visit_map [of g2 colors names l' n s']
  by (cases "diff_visit g2 colors names [] n Map.empty") auto

lemma diff_visit_char:
  "diff_visit g2 colors names l n s = Inr r \<Longrightarrow>
   nid (fst r) = nid (diff_paint g2 colors names n) \<and>
   ndata (fst r) = ndata (diff_paint g2 colors names n)"
  using diff_visit_indep [of g2 colors names l n s r "[]" Map.empty]
  by (simp add: diff_paint_def)

lemma diff_visit_name:
  "diff_visit g2 colors names l n s = Inr r \<Longrightarrow>
   get_node_name (fst r) = get_node_name n \<and> nid (fst r) = nid n \<and>
   (has_style n \<longrightarrow> has_style (fst r))"
  unfolding diff_visit_def Let_def
  by (auto simp add: has_style_def split: sum.splits option.splits if_splits prod.splits
           dest!: paint_Inr)

lemma keeps_label_diff_paint: "keeps_label (diff_paint g2 colors)"
  unfolding keeps_label_def diff_paint_def
  by (auto split: sum.splits prod.splits dest: diff_visit_name)

lemma lookup_name: "lookup g p = Some m \<Longrightarrow> p \<noteq> [] \<Longrightarrow> get_node_name m = Inr (last p)"
proof (induction p arbitrary: g)
  case Nil
  then show ?case by simp
next
  case (Cons key p)
  from Cons.prems(1) obtain c where
    f: "find (\<lambda>c. get_node_name c = Inr key) (children g) = Some c" and l: "lookup c p = Some m"
    by (auto split: option.splits)
  show ?case
  proof (cases p)
    case Nil
    with l find_name [OF f] show ?thesis by simp
  next
    case (Cons a list)
    with Cons.IH [OF l] show ?thesis by simp
  qed
qed

lemma name_has_data: "get_node_name n = Inr x \<Longrightarrow> ndata n \<noteq> None"
  by (auto simp add: get_node_name_def get_node_properties_def split: sum.splits option.splits)

text \<open>A node at a label path that both documents have is painted with the intersect colour.\<close>

lemma diff_visit_shared:
  assumes "diff_visit g2 colors p l a s = Inr r" "p \<noteq> []"
      and "lookup g1 p = Some a" "lookup g2 p = Some b"
  shows "\<exists>ca. get_color_id a = Inr ca \<and> get_node_color (fst r) = Inr (pal_intersect colors ! ca)"
proof -
  have na: "get_node_name a = Inr (last p)" using lookup_name [OF assms(3,2)] .
  have nb: "get_node_name b = Inr (last p)" using lookup_name [OF assms(4,2)] .
  have db: "ndata b \<noteq> None" using name_has_data [OF nb] .
  from assms(1) obtain res where res: "get_node_from_names g2 p = Inr res"
    unfolding diff_visit_def Let_def by (auto split: sum.splits)
  from get_node_from_names_lookup [OF assms(4,2) res] obtain L where L: "res = Some (L, b)" by blast
  from assms(1) res L na nb db assms(2) obtain n' where
    p: "paint (pal_intersect colors) a = Inr n'" and r: "fst r = n'"
    unfolding diff_visit_def Let_def by (auto split: sum.splits)
  from paint_Inr [OF p] r show ?thesis by auto
qed

lemma find_diff_shared:
  assumes "find_diff self g1 g2 colors = Inr ((dg, rm), self')" "p \<noteq> []"
      and "lookup (deref self g1) p = Some a" "lookup (deref self g2) p = Some b"
  shows "\<exists>a' ca. lookup dg p = Some a' \<and> get_color_id a = Inr ca \<and>
                 get_node_color a' = Inr (pal_intersect colors ! ca)"
proof -
  let ?f = "diff_paint (deref self g2) colors"
  from assms(1) obtain dg0 where
    w: "walk (diff_visit (deref self g2) colors) [] [] (deref self g1) Map.empty = Inr (dg0, rm)"
    and r: "resize_fonts dg0 20 = Inr dg"
    by (rule find_diff_Inr)
  have dg0: "dg0 = tmapn ?f [] (deref self g1)"
    by (rule walk_tmapn(1) [OF _ w]) (use diff_visit_char in blast)
  have dg: "dg = tmapn font_20 [] dg0"
    using resize_fonts_eq [OF r] by (simp add: fonts_set_def)
  let ?a' = "tmapn font_20 p (tmapn ?f p a)"
  have l: "lookup dg p = Some ?a'"
    using assms(3) by (simp add: dg dg0 lookup_tmapn keeps_label_font_20 keeps_label_diff_paint)
  from walk_visits(1) [OF w assms(3)] obtain l' s' v where
    v: "diff_visit (deref self g2) colors p l' a s' = Inr v"
    by (auto simp add: returns_iff)
  from diff_visit_shared [OF v assms(2,3,4)] obtain ca where
    ca: "get_color_id a = Inr ca" "get_node_color (fst v) = Inr (pal_intersect colors ! ca)"
    by blast
  have "get_node_color ?a' = get_node_color (font_20 p (tmapn ?f p a))"
    by (rule color_cong) (simp add: ndata_tmapn)
  also have "\<dots> = get_node_color (tmapn ?f p a)"
    using assms(2) by (simp add: font_20_def color_map_props_font)
  also have "\<dots> = get_node_color (?f p a)"
    by (rule color_cong) (simp add: ndata_tmapn)
  also have "\<dots> = get_node_color (fst v)"
    by (rule color_cong) (use diff_visit_char [OF v] in simp)
  finally show ?thesis using l ca by auto
qed

section \<open>The inputs after a run, and the two directions\<close>

lemma map_datum_idem: "(\<And>p. F (F p) = F p) \<Longrightarrow> map_datum F (map_datum F d) = map_datum F d"
  by (cases d) simp_all

lemma map_last_props_idem:
  assumes "\<And>p. F (F p) = F p"
  shows "map_last_props F (map_last_props F ds) = map_last_props F ds"
proof (induction ds)
  case Nil
  then show ?case by simp
next
  case (Cons d ds)
  show ?case
  proof (cases "list_ex (\<lambda>x. datum_props x \<noteq> None) ds")
    case True
    then have "list_ex (\<lambda>x. datum_props x \<noteq> None) (map_last_props F ds)"
      using last_props_ex [of ds] last_props_ex [of "map_last_props F ds"]
      by (simp add: last_props_map)
    with True Cons.IH show ?thesis by simp
  next
    case False
    then show ?thesis using map_datum_idem [of F d] assms by simp
  qed
qed

lemma map_data_idem: "(\<And>p. F (F p) = F p) \<Longrightarrow> map_data F (map_data F d) = map_data F d"
  by (cases d) (simp_all add: map_datum_idem map_last_props_idem)

lemma font_20_idem:
  assumes "nid n' = nid (font_20 names n)" "ndata n' = ndata (font_20 names n)"
  shows "nid (font_20 names n') = nid n' \<and> ndata (font_20 names n') = ndata n'"
proof (cases "names = []")
  case True
  then show ?thesis by (simp add: font_20_def)
next
  case False
  have "map_option (map_data (\<lambda>p. p\<lparr>font_size := ''20''\<rparr>))
          (map_option (map_data (\<lambda>p. p\<lparr>font_size := ''20''\<rparr>)) (ndata n)) =
        map_option (map_data (\<lambda>p. p\<lparr>font_size := ''20''\<rparr>)) (ndata n)"
    by (cases "ndata n") (simp_all add: map_data_idem)
  with False assms show ?thesis by (simp add: font_20_def map_props_def)
qed

lemma label_tmapn: "keeps_label f \<Longrightarrow> label (tmapn f names n) = label n"
  by (simp add: label_def name_tmapn)

lemma tmapn_idem:
  "keeps_label f \<Longrightarrow>
   (\<forall>names n n'. nid n' = nid (f names n) \<and> ndata n' = ndata (f names n) \<longrightarrow>
        nid (f names n') = nid n' \<and> ndata (f names n') = ndata n') \<Longrightarrow>
   tmapn f names (tmapn f names n) = tmapn f names n"
  "keeps_label f \<Longrightarrow>
   (\<forall>names n n'. nid n' = nid (f names n) \<and> ndata n' = ndata (f names n) \<longrightarrow>
        nid (f names n') = nid n' \<and> ndata (f names n') = ndata n') \<Longrightarrow>
   tmapn_list f names (tmapn_list f names cs) = tmapn_list f names cs"
proof (induction f names n and f names cs rule: tmapn_tmapn_list.induct)
  case (1 f names i d)
  let ?n = "Node i d None"
  let ?n' = "Node (nid (f names ?n)) (ndata (f names ?n)) None"
  from "1.prems"(2) [rule_format, of "?n'" names "?n"]
  have "nid (f names ?n') = nid ?n' \<and> ndata (f names ?n') = ndata ?n'"
    by simp
  then show ?case by simp
next
  case (2 f names i d gi es)
  let ?n = "Node i d (Some (Graph gi None es))"
  let ?n' = "Node (nid (f names ?n)) (ndata (f names ?n)) (Some (Graph gi None es))"
  from "2.prems"(2) [rule_format, of "?n'" names "?n"]
  have "nid (f names ?n') = nid ?n' \<and> ndata (f names ?n') = ndata ?n'"
    by simp
  then show ?case by simp
next
  case (3 f names i d gi c es)
  let ?n = "Node i d (Some (Graph gi (Some (Single c)) es))"
  let ?c' = "tmapn f (names @ [label c]) c"
  let ?n' = "Node (nid (f names ?n)) (ndata (f names ?n)) (Some (Graph gi (Some (Single ?c')) es))"
  from "3.prems"(2) [rule_format, of "?n'" names "?n"]
  have "nid (f names ?n') = nid ?n' \<and> ndata (f names ?n') = ndata ?n'"
    by simp
  moreover have "label ?c' = label c" using "3.prems"(1) by (rule label_tmapn)
  moreover have "tmapn f (names @ [label c]) ?c' = ?c'" using "3.IH" [OF "3.prems"] .
  ultimately show ?case by simp
next
  case (4 f names i d gi cs es)
  let ?n = "Node i d (Some (Graph gi (Some (Many cs)) es))"
  let ?cs' = "tmapn_list f names cs"
  let ?n' = "Node (nid (f names ?n)) (ndata (f names ?n)) (Some (Graph gi (Some (Many ?cs')) es))"
  from "4.prems"(2) [rule_format, of "?n'" names "?n"]
  have "nid (f names ?n') = nid ?n' \<and> ndata (f names ?n') = ndata ?n'"
    by simp
  moreover have "tmapn_list f names ?cs' = ?cs'" using "4.IH" [OF "4.prems"] .
  ultimately show ?case by simp
next
  case (5 f names)
  then show ?case by simp
next
  case (6 f names c cs)
  let ?c' = "tmapn f (names @ [label c]) c"
  have "label ?c' = label c" using "6.prems"(1) by (rule label_tmapn)
  moreover have "tmapn f (names @ [label c]) ?c' = ?c'" using "6.IH"(1) [OF "6.prems"] .
  moreover have "tmapn_list f names (tmapn_list f names cs) = tmapn_list f names cs"
    using "6.IH"(2) [OF "6.prems"] .
  ultimately show ?case by simp
qed

lemma fonts_set_idem: "fonts_set (fonts_set g) = fonts_set g"
  unfolding fonts_set_def
  by (rule tmapn_idem(1) [OF keeps_label_font_20]) (use font_20_idem in blast)

lemma find_diff_state:
  assumes "find_diff self g1 g2 colors = Inr (res, self')"
  shows "gdict_1 self' = fonts_set (gdict_1 self)" "gdict_2 self' = fonts_set (gdict_2 self)"
        "\<exists>rc. recolor_graph (gdict_1 self) (pal_g1 self_colors) = Inr rc \<and> gdict_1_recolor self' = Some rc"
        "\<exists>rc. recolor_graph (gdict_2 self) (pal_g2 self_colors) = Inr rc \<and> gdict_2_recolor self' = Some rc"
        "run_mode self' = run_mode self"
proof -
  obtain dg rm where res: "res = (dg, rm)" by (cases res)
  from assms [unfolded res] obtain dg0 rc1 rc2 r1 r2 where
    c: "recolor_graph (gdict_1 self) (pal_g1 self_colors) = Inr rc1"
       "recolor_graph (gdict_2 self) (pal_g2 self_colors) = Inr rc2"
    and r: "resize_fonts (gdict_1 self) 20 = Inr r1" "resize_fonts (gdict_2 self) 20 = Inr r2"
    and s: "self' = self\<lparr>gdict_1 := r1, gdict_2 := r2, gdict_1_recolor := Some rc1,
                   gdict_2_recolor := Some rc2\<rparr>"
    by (rule find_diff_Inr)
  show "gdict_1 self' = fonts_set (gdict_1 self)" using resize_fonts_eq [OF r(1)] s by simp
  show "gdict_2 self' = fonts_set (gdict_2 self)" using resize_fonts_eq [OF r(2)] s by simp
  show "\<exists>rc. recolor_graph (gdict_1 self) (pal_g1 self_colors) = Inr rc \<and> gdict_1_recolor self' = Some rc"
    using c s by simp
  show "\<exists>rc. recolor_graph (gdict_2 self) (pal_g2 self_colors) = Inr rc \<and> gdict_2_recolor self' = Some rc"
    using c s by simp
  show "run_mode self' = run_mode self" using s by simp
qed


lemma map_datum_absorb:
  "(\<And>p. F (G p) = F p) \<Longrightarrow> map_datum F (map_datum G d) = map_datum F d"
  by (cases d) simp_all

lemma map_last_props_absorb:
  assumes "\<And>p. F (G p) = F p"
  shows "map_last_props F (map_last_props G ds) = map_last_props F ds"
proof (induction ds)
  case Nil
  then show ?case by simp
next
  case (Cons d ds)
  show ?case
  proof (cases "list_ex (\<lambda>x. datum_props x \<noteq> None) ds")
    case True
    then have "list_ex (\<lambda>x. datum_props x \<noteq> None) (map_last_props G ds)"
      using last_props_ex [of ds] last_props_ex [of "map_last_props G ds"]
      by (simp add: last_props_map)
    with True Cons.IH show ?thesis by simp
  next
    case False
    then show ?thesis using map_datum_absorb [of F G d] assms by simp
  qed
qed

lemma map_data_absorb:
  "(\<And>p. F (G p) = F p) \<Longrightarrow> map_data F (map_data G d) = map_data F d"
  by (cases d) (simp_all add: map_datum_absorb map_last_props_absorb)

lemma blank_font_absorb:
  assumes "nid n' = nid (font_20 names n)" "ndata n' = ndata (font_20 names n)"
  shows "nid (blank_font names n') = nid (blank_font names n) \<and>
         ndata (blank_font names n') = ndata (blank_font names n)"
proof (cases "names = []")
  case True
  with assms show ?thesis by (simp add: blank_font_def font_20_def)
next
  case False
  have "map_option (map_data (\<lambda>p. p\<lparr>font_size := []\<rparr>))
          (map_option (map_data (\<lambda>p. p\<lparr>font_size := ''20''\<rparr>)) (ndata n)) =
        map_option (map_data (\<lambda>p. p\<lparr>font_size := []\<rparr>)) (ndata n)"
    by (cases "ndata n") (simp_all add: map_data_absorb)
  with False assms show ?thesis by (simp add: blank_font_def font_20_def map_props_def)
qed

lemma tmapn_absorb:
  "keeps_label g \<Longrightarrow>
   (\<forall>names n n'. nid n' = nid (g names n) \<and> ndata n' = ndata (g names n) \<longrightarrow>
        nid (f names n') = nid (f names n) \<and> ndata (f names n') = ndata (f names n)) \<Longrightarrow>
   tmapn f names (tmapn g names n) = tmapn f names n"
  "keeps_label g \<Longrightarrow>
   (\<forall>names n n'. nid n' = nid (g names n) \<and> ndata n' = ndata (g names n) \<longrightarrow>
        nid (f names n') = nid (f names n) \<and> ndata (f names n') = ndata (f names n)) \<Longrightarrow>
   tmapn_list f names (tmapn_list g names cs) = tmapn_list f names cs"
proof (induction g names n and g names cs rule: tmapn_tmapn_list.induct)
  case (1 g names i d)
  let ?n = "Node i d None"
  let ?n' = "Node (nid (g names ?n)) (ndata (g names ?n)) None"
  from "1.prems"(2) [rule_format, of "?n'" names "?n"]
  have "nid (f names ?n') = nid (f names ?n) \<and> ndata (f names ?n') = ndata (f names ?n)"
    by simp
  then show ?case by simp
next
  case (2 g names i d gi es)
  let ?n = "Node i d (Some (Graph gi None es))"
  let ?n' = "Node (nid (g names ?n)) (ndata (g names ?n)) (Some (Graph gi None es))"
  from "2.prems"(2) [rule_format, of "?n'" names "?n"]
  have "nid (f names ?n') = nid (f names ?n) \<and> ndata (f names ?n') = ndata (f names ?n)"
    by simp
  then show ?case by simp
next
  case (3 g names i d gi c es)
  let ?n = "Node i d (Some (Graph gi (Some (Single c)) es))"
  let ?c' = "tmapn g (names @ [label c]) c"
  let ?n' = "Node (nid (g names ?n)) (ndata (g names ?n)) (Some (Graph gi (Some (Single ?c')) es))"
  from "3.prems"(2) [rule_format, of "?n'" names "?n"]
  have "nid (f names ?n') = nid (f names ?n) \<and> ndata (f names ?n') = ndata (f names ?n)"
    by simp
  moreover have "label ?c' = label c" using "3.prems"(1) by (rule label_tmapn)
  moreover have "tmapn f (names @ [label c]) ?c' = tmapn f (names @ [label c]) c"
    using "3.IH" [OF "3.prems"] .
  ultimately show ?case by simp
next
  case (4 g names i d gi cs es)
  let ?n = "Node i d (Some (Graph gi (Some (Many cs)) es))"
  let ?cs' = "tmapn_list g names cs"
  let ?n' = "Node (nid (g names ?n)) (ndata (g names ?n)) (Some (Graph gi (Some (Many ?cs')) es))"
  from "4.prems"(2) [rule_format, of "?n'" names "?n"]
  have "nid (f names ?n') = nid (f names ?n) \<and> ndata (f names ?n') = ndata (f names ?n)"
    by simp
  moreover have "tmapn_list f names ?cs' = tmapn_list f names cs" using "4.IH" [OF "4.prems"] .
  ultimately show ?case by simp
next
  case (5 g names)
  show ?case by simp
next
  case (6 g names c cs)
  let ?c' = "tmapn g (names @ [label c]) c"
  have "label ?c' = label c" using "6.prems"(1) by (rule label_tmapn)
  moreover have "tmapn f (names @ [label c]) ?c' = tmapn f (names @ [label c]) c"
    using "6.IH"(1) [OF "6.prems"] .
  moreover have "tmapn_list f names (tmapn_list g names cs) = tmapn_list f names cs"
    using "6.IH"(2) [OF "6.prems"] .
  ultimately show ?case by simp
qed

lemma blank_fonts_fonts_set: "blank_fonts (fonts_set g) = blank_fonts g"
  unfolding fonts_set_def blank_fonts_def
  by (rule tmapn_absorb(1) [OF keeps_label_font_20]) (use blank_font_absorb in blast)

text \<open>
  C7 as stated: the inputs are left unchanged and the cosmetic passes happen once per run.
  On the document with the single species \<^verbatim>\<open>X\<close>, diffed against itself in matrix mode,
  neither parsed input is what it was, and the recoloured copies left in the object (made
  by the second direction) are not the ones returned (made by the first).
\<close>

theorem run_mutates_inputs_counterexample:
  "(case run (init doc_x doc_x MatrixMode) of
      Inl e \<Rightarrow> False
    | Inr (g, self') \<Rightarrow>
        gdict_1 self' \<noteq> doc_x \<and> gdict_2 self' \<noteq> doc_x \<and>
        out_g1_recolored g \<noteq> gdict_1_recolor self' \<and>
        out_g2_recolored g \<noteq> gdict_2_recolor self')"
  by code_simp

text \<open>
  C7, amended: a run that returns leaves each parsed input as it was except for the font
  sizes of the labels of the nodes below the root: the font pass is applied to
  \<^verbatim>\<open>self.gdict_1\<close> and \<^verbatim>\<open>self.gdict_2\<close> themselves, while painting and recolouring
  work on deep copies. The cosmetic passes run in every call of \<^verbatim>\<open>_find_diff\<close>: in matrix
  mode the recoloured copies that are returned were made from the inputs by the first
  direction, and the copies left in the object were made again by the second direction,
  from the inputs as the first had left them; in union mode they are made once.
\<close>

theorem run_inputs_up_to_fonts:
  assumes "run self = Inr (g, self')"
  shows "blank_fonts (gdict_1 self') = blank_fonts (gdict_1 self) \<and>
         blank_fonts (gdict_2 self') = blank_fonts (gdict_2 self) \<and>
         (case run_mode self of
            MatrixMode \<Rightarrow>
              (\<exists>r1 self1 r2 rc1 rc2 rc1' rc2'.
                 find_diff self Gdict1 Gdict2 self_colors = Inr (r1, self1) \<and>
                 find_diff self1 Gdict2 Gdict1 (swap_colors self_colors) = Inr (r2, self') \<and>
                 recolor_graph (gdict_1 self) (pal_g1 self_colors) = Inr rc1 \<and>
                 recolor_graph (gdict_2 self) (pal_g2 self_colors) = Inr rc2 \<and>
                 out_g1_recolored g = Some rc1 \<and> out_g2_recolored g = Some rc2 \<and>
                 recolor_graph (gdict_1 self1) (pal_g1 self_colors) = Inr rc1' \<and>
                 recolor_graph (gdict_2 self1) (pal_g2 self_colors) = Inr rc2' \<and>
                 gdict_1_recolor self' = Some rc1' \<and> gdict_2_recolor self' = Some rc2')
          | UnionMode \<Rightarrow>
              (\<exists>rc1 rc2.
                 recolor_graph (gdict_1 self) (pal_g1 self_colors) = Inr rc1 \<and>
                 recolor_graph (gdict_2 self) (pal_g2 self_colors) = Inr rc2 \<and>
                 gdict_1_recolor self' = Some rc1 \<and> gdict_2_recolor self' = Some rc2))"
proof (cases "run_mode self")
  case MatrixMode
  with assms obtain r1 self1 r2 where
    a: "find_diff self Gdict1 Gdict2 self_colors = Inr (r1, self1)"
    and b: "find_diff self1 Gdict2 Gdict1 (swap_colors self_colors) = Inr (r2, self')"
    and g: "g = MatrixGraphs (fst r1) (gdict_1_recolor self1) (gdict_2_recolor self1) (fst r2)"
    unfolding run_def diff_graphs_def by (auto split: sum.splits prod.splits)
  note sa = find_diff_state [OF a] and sb = find_diff_state [OF b]
  have 1: "blank_fonts (gdict_1 self') = blank_fonts (gdict_1 self)"
          "blank_fonts (gdict_2 self') = blank_fonts (gdict_2 self)"
    using sa(1,2) sb(1,2) by (simp_all add: blank_fonts_fonts_set)
  from sa(3,4) obtain rc1 rc2 where
    2: "recolor_graph (gdict_1 self) (pal_g1 self_colors) = Inr rc1" "gdict_1_recolor self1 = Some rc1"
       "recolor_graph (gdict_2 self) (pal_g2 self_colors) = Inr rc2" "gdict_2_recolor self1 = Some rc2"
    by blast
  from sb(3,4) obtain rc1' rc2' where
    3: "recolor_graph (gdict_1 self1) (pal_g1 self_colors) = Inr rc1'"
       "gdict_1_recolor self' = Some rc1'"
       "recolor_graph (gdict_2 self1) (pal_g2 self_colors) = Inr rc2'"
       "gdict_2_recolor self' = Some rc2'"
    by blast
  have "\<exists>r1 self1 r2 rc1 rc2 rc1' rc2'.
                 find_diff self Gdict1 Gdict2 self_colors = Inr (r1, self1) \<and>
                 find_diff self1 Gdict2 Gdict1 (swap_colors self_colors) = Inr (r2, self') \<and>
                 recolor_graph (gdict_1 self) (pal_g1 self_colors) = Inr rc1 \<and>
                 recolor_graph (gdict_2 self) (pal_g2 self_colors) = Inr rc2 \<and>
                 out_g1_recolored g = Some rc1 \<and> out_g2_recolored g = Some rc2 \<and>
                 recolor_graph (gdict_1 self1) (pal_g1 self_colors) = Inr rc1' \<and>
                 recolor_graph (gdict_2 self1) (pal_g2 self_colors) = Inr rc2' \<and>
                 gdict_1_recolor self' = Some rc1' \<and> gdict_2_recolor self' = Some rc2'"
    using a b 2 3 g
    by (intro exI [of _ r1] exI [of _ self1] exI [of _ r2] exI [of _ rc1] exI [of _ rc2]
              exI [of _ rc1'] exI [of _ rc2']) simp
  with 1 MatrixMode show ?thesis by simp
next
  case UnionMode
  with assms obtain r1 self1 where
    a: "find_diff self Gdict1 Gdict2 self_colors = Inr (r1, self1)" and s: "self' = self1"
    unfolding run_def diff_graphs_def find_diff_union_def by (auto split: sum.splits prod.splits)
  note sa = find_diff_state [OF a]
  have 1: "blank_fonts (gdict_1 self') = blank_fonts (gdict_1 self)"
          "blank_fonts (gdict_2 self') = blank_fonts (gdict_2 self)"
    using sa(1,2) s by (simp_all add: blank_fonts_fonts_set)
  from sa(3,4) obtain rc1 rc2 where
    2: "recolor_graph (gdict_1 self) (pal_g1 self_colors) = Inr rc1" "gdict_1_recolor self1 = Some rc1"
       "recolor_graph (gdict_2 self) (pal_g2 self_colors) = Inr rc2" "gdict_2_recolor self1 = Some rc2"
    by blast
  have "\<exists>rc1 rc2.
                 recolor_graph (gdict_1 self) (pal_g1 self_colors) = Inr rc1 \<and>
                 recolor_graph (gdict_2 self) (pal_g2 self_colors) = Inr rc2 \<and>
                 gdict_1_recolor self' = Some rc1 \<and> gdict_2_recolor self' = Some rc2"
    using 2 s by (intro exI [of _ rc1] exI [of _ rc2]) simp
  with 1 UnionMode show ?thesis by simp
qed

theorem run_inputs_up_to_fonts_witness:
  "\<exists>g self'. run (init doc_x doc_x MatrixMode) = Inr (g, self') \<and>
     blank_fonts (gdict_1 self') = blank_fonts doc_x \<and>
     blank_fonts (gdict_2 self') = blank_fonts doc_x"
proof -
  have "returns (run (init doc_x doc_x MatrixMode))" by code_simp
  then obtain g self' where r: "run (init doc_x doc_x MatrixMode) = Inr (g, self')"
    by (auto simp add: returns_iff)
  from run_inputs_up_to_fonts [OF r] r show ?thesis by (simp add: init_def)
qed



section \<open>A document against itself\<close>

lemma color_id_less: "get_color_id n = Inr cid \<Longrightarrow> cid < 3"
  unfolding get_color_id_def
  by (cases "get_node_color n") (simp_all split: if_split_asm)

lemma color_id_style: "returns (get_color_id n) \<Longrightarrow> returns (get_node_properties n)"
  unfolding get_color_id_def get_node_color_def
  by (cases "get_node_properties n") (simp_all add: returns_def)

lemma wf_local_has_style: "wf_local n \<Longrightarrow> has_style n"
  by (simp add: wf_local_def has_style_def color_id_style)

lemma wf_node_styled: "wf_node n \<Longrightarrow> every has_style n"
  unfolding wf_node_def by (rule every_mono(1) [of wf_local has_style]) (rule wf_local_has_style)

lemma wf_doc_children: "wf_doc g \<Longrightarrow> c \<in> set (children g) \<Longrightarrow> wf_node c"
  by (simp add: wf_doc_def list_all_iff)

lemma wf_node_children: "wf_node n \<Longrightarrow> c \<in> set (children n) \<Longrightarrow> wf_node c"
  unfolding wf_node_def by (rule every_children)

lemma wf_node_here: "wf_node n \<Longrightarrow> wf_local n"
  unfolding wf_node_def by (rule every_here)

lemma find_unique:
  "distinct (map get_node_name cs) \<Longrightarrow> c \<in> set cs \<Longrightarrow> get_node_name c = Inr nm \<Longrightarrow>
   find (\<lambda>x. get_node_name x = Inr nm) cs = Some c"
  by (induction cs) (auto simp add: image_iff)

lemma lookup_snoc:
  "lookup g p = Some n \<Longrightarrow> find (\<lambda>x. get_node_name x = Inr nm) (children n) = Some c \<Longrightarrow>
   lookup g (p @ [nm]) = Some c"
  by (induction p arbitrary: g) (auto split: option.splits)

lemma wf_lookup:
  "\<forall>c \<in> set (children g). wf_node c \<Longrightarrow> lookup g p = Some m \<Longrightarrow> p \<noteq> [] \<Longrightarrow> wf_node m"
proof (induction p arbitrary: g)
  case Nil
  then show ?case by simp
next
  case (Cons key p)
  from Cons.prems(2) obtain c where
    f: "find (\<lambda>c. get_node_name c = Inr key) (children g) = Some c" and l: "lookup c p = Some m"
    by (auto split: option.splits)
  from find_name [OF f] Cons.prems(1) have c: "wf_node c" by simp
  show ?case
  proof (cases p)
    case Nil
    with l c show ?thesis by simp
  next
    case (Cons a list)
    with Cons.IH [OF _ l] wf_node_children [OF c] show ?thesis by simp
  qed
qed

lemma every_tmapn:
  "(\<forall>names n. names \<noteq> [] \<longrightarrow> P n \<longrightarrow> Q (f names n)) \<Longrightarrow>
   (\<forall>n n'. nid n = nid n' \<and> ndata n = ndata n' \<longrightarrow> Q n = Q n') \<Longrightarrow>
   names \<noteq> [] \<Longrightarrow> every P n \<Longrightarrow> every Q (tmapn f names n)"
  "(\<forall>names n. names \<noteq> [] \<longrightarrow> P n \<longrightarrow> Q (f names n)) \<Longrightarrow>
   (\<forall>n n'. nid n = nid n' \<and> ndata n = ndata n' \<longrightarrow> Q n = Q n') \<Longrightarrow>
   every_list P cs \<Longrightarrow> every_list Q (tmapn_list f names cs)"
proof (induction f names n and f names cs rule: tmapn_tmapn_list.induct)
  case (1 f names i d)
  let ?n = "Node i d None"
  from "1.prems"(1,3,4) have "Q (f names ?n)" by simp
  moreover from "1.prems"(2) [rule_format, of "Node (nid (f names ?n)) (ndata (f names ?n)) None" "f names ?n"] have
    "Q (Node (nid (f names ?n)) (ndata (f names ?n)) None) = Q (f names ?n)"
    by simp
  ultimately show ?case by simp
next
  case (2 f names i d gi es)
  from "2.prems"(4) show ?case by simp
next
  case (3 f names i d gi c es)
  let ?n = "Node i d (Some (Graph gi (Some (Single c)) es))"
  from "3.prems"(1,3,4) have "Q (f names ?n)" by simp
  moreover from "3.prems"(2) [rule_format, of "Node (nid (f names ?n)) (ndata (f names ?n))
         (Some (Graph gi (Some (Single (tmapn f (names @ [label c]) c))) es))" "f names ?n"] have
    "Q (Node (nid (f names ?n)) (ndata (f names ?n))
         (Some (Graph gi (Some (Single (tmapn f (names @ [label c]) c))) es))) = Q (f names ?n)"
    by simp
  moreover have "every Q (tmapn f (names @ [label c]) c)"
    using "3.IH" [OF "3.prems"(1,2)] "3.prems"(4) by simp
  ultimately show ?case by simp
next
  case (4 f names i d gi cs es)
  let ?n = "Node i d (Some (Graph gi (Some (Many cs)) es))"
  from "4.prems"(1,3,4) have "Q (f names ?n)" by simp
  moreover from "4.prems"(2) [rule_format, of "Node (nid (f names ?n)) (ndata (f names ?n))
         (Some (Graph gi (Some (Many (tmapn_list f names cs))) es))" "f names ?n"] have
    "Q (Node (nid (f names ?n)) (ndata (f names ?n))
         (Some (Graph gi (Some (Many (tmapn_list f names cs))) es))) = Q (f names ?n)"
    by simp
  moreover have "every_list Q (tmapn_list f names cs)"
    using "4.IH" [OF "4.prems"(1,2)] "4.prems"(4) by simp
  ultimately show ?case by simp
next
  case (5 f names)
  show ?case by simp
next
  case (6 f names c cs)
  have "every Q (tmapn f (names @ [label c]) c)"
    using "6.IH"(1) [OF "6.prems"(1,2)] "6.prems"(3) by simp
  moreover have "every_list Q (tmapn_list f names cs)"
    using "6.IH"(2) [OF "6.prems"(1,2)] "6.prems"(3) by simp
  ultimately show ?case by simp
qed

lemma tmapn_cong_ok:
  "(\<forall>names n. ok names n \<longrightarrow>
       nid (f names n) = nid (g names n) \<and> ndata (f names n) = ndata (g names n)) \<Longrightarrow>
   (\<forall>names n c. ok names n \<longrightarrow> c \<in> set (children n) \<longrightarrow> ok (names @ [label c]) c) \<Longrightarrow>
   ok names n \<Longrightarrow> tmapn f names n = tmapn g names n"
  "(\<forall>names n. ok names n \<longrightarrow>
       nid (f names n) = nid (g names n) \<and> ndata (f names n) = ndata (g names n)) \<Longrightarrow>
   (\<forall>names n c. ok names n \<longrightarrow> c \<in> set (children n) \<longrightarrow> ok (names @ [label c]) c) \<Longrightarrow>
   (\<forall>c \<in> set cs. ok (names @ [label c]) c) \<Longrightarrow> tmapn_list f names cs = tmapn_list g names cs"
proof (induction f names n and f names cs rule: tmapn_tmapn_list.induct)
  case (1 f names i d)
  from "1.prems"(1) [rule_format, OF "1.prems"(3)] show ?case by simp
next
  case (2 f names i d gi es)
  from "2.prems"(1) [rule_format, OF "2.prems"(3)] show ?case by simp
next
  case (3 f names i d gi c es)
  let ?n = "Node i d (Some (Graph gi (Some (Single c)) es))"
  have "c \<in> set (children ?n)" by (simp add: children_def kids_of_def)
  with "3.prems"(2,3) have "ok (names @ [label c]) c" by blast
  from "3.IH" [OF "3.prems"(1,2) this] "3.prems"(1) [rule_format, OF "3.prems"(3)]
  show ?case by simp
next
  case (4 f names i d gi cs es)
  let ?n = "Node i d (Some (Graph gi (Some (Many cs)) es))"
  have "children ?n = cs" by (simp add: children_def kids_of_def)
  with "4.prems"(2,3) have "\<forall>c \<in> set cs. ok (names @ [label c]) c" by metis
  from "4.IH" [OF "4.prems"(1,2) this] "4.prems"(1) [rule_format, OF "4.prems"(3)]
  show ?case by simp
next
  case (5 f names)
  show ?case by simp
next
  case (6 f names c cs)
  from "6.prems"(3) have a: "ok (names @ [label c]) c" "\<forall>c \<in> set cs. ok (names @ [label c]) c"
    by simp_all
  from "6.IH"(1) [OF "6.prems"(1,2) a(1)] "6.IH"(2) [OF "6.prems"(1,2) a(2)]
  show ?case by simp
qed

lemma has_style_cong: "nid n = nid n' \<and> ndata n = ndata n' \<Longrightarrow> has_style n = has_style n'"
  using props_cong [of n n'] by (simp add: has_style_def)

lemma has_style_diff_paint: "has_style n \<Longrightarrow> has_style (diff_paint g2 colors names n)"
  unfolding diff_paint_def by (auto split: sum.splits prod.splits dest: diff_visit_name)

lemma resize_visit_total:
  "names = [] \<or> has_style n \<Longrightarrow> \<exists>r. resize_visit k names l n s = Inr r"
  by (auto simp add: resize_visit_def resize_node_font_def has_style_def returns_iff)

lemma has_style_id: "has_style c \<Longrightarrow> nid c \<noteq> None \<and> (\<exists>nm. get_node_name c = Inr nm)"
  using has_style_name [of c] by (simp add: has_style_def returns_iff)

lemma kids_graph: "kids_of g \<noteq> None \<Longrightarrow> ngraph g = Some gr \<Longrightarrow> gnode gr \<noteq> None"
  by (auto simp add: kids_of_def)

lemma resize_fonts_total:
  assumes "kids_of g \<noteq> None" "\<forall>x \<in> set (children g). every has_style x"
  shows "\<exists>g'. resize_fonts g k = Inr g'"
proof -
  let ?ok = "\<lambda>(names :: string list) n. if names = [] then n = g else every has_style n"
  have "\<exists>r. walk (resize_visit k) [] [] g () = Inr r"
  proof (rule walk_total(1) [where ok = ?ok])
    show "\<forall>names l n s. ?ok names n \<longrightarrow> (\<exists>r. resize_visit k names l n s = Inr r)"
    proof (intro allI impI)
      fix names :: "string list" and l n s
      assume "?ok names n"
      then have "names = [] \<or> has_style n"
        using every_here [of has_style n] by (cases "names = []") auto
      then show "\<exists>r. resize_visit k names l n s = Inr r" by (rule resize_visit_total)
    qed
    show "\<forall>names n c. ?ok names n \<longrightarrow> c \<in> set (children n) \<longrightarrow>
            nid c \<noteq> None \<and> (\<exists>nm. get_node_name c = Inr nm \<and> ?ok (names @ [nm]) c)"
    proof (intro allI impI)
      fix names :: "string list" and n c
      assume o: "?ok names n" and c: "c \<in> set (children n)"
      have "every has_style c"
        using o c assms(2) every_children [of has_style n c] by (cases "names = []") auto
      then show "nid c \<noteq> None \<and> (\<exists>nm. get_node_name c = Inr nm \<and> ?ok (names @ [nm]) c)"
        using has_style_id [OF every_here [of has_style c]] by auto
    qed
    show "\<forall>names n gr. ?ok names n \<longrightarrow> ngraph n = Some gr \<longrightarrow> gnode gr \<noteq> None"
    proof (intro allI impI)
      fix names :: "string list" and n gr
      assume "?ok names n" "ngraph n = Some gr"
      then show "gnode gr \<noteq> None"
        using kids_graph [OF assms(1), of gr] every_graph [of has_style n gr]
        by (cases "names = []") auto
    qed
    show "?ok [] g" by simp
  qed
  then show ?thesis by (auto simp add: resize_fonts_def split: prod.splits)
qed

lemma recolor_visit_total:
  "names = [] \<or> wf_local n \<Longrightarrow> length cs = 3 \<Longrightarrow> \<exists>r. recolor_visit cs names l n s = Inr r"
proof (cases "names = []")
  case True
  then show ?thesis by (simp add: recolor_visit_def)
next
  case False
  assume "names = [] \<or> wf_local n" "length cs = 3"
  with False obtain cid where c: "get_color_id n = Inr cid"
    by (auto simp add: wf_local_def returns_iff)
  from paint_total [OF c, of cs] color_id_less [OF c] \<open>length cs = 3\<close>
  obtain n' where "paint cs n = Inr n'" by auto
  with False show ?thesis by (simp add: recolor_visit_def)
qed

lemma recolor_graph_total:
  assumes "wf_doc g" "length cs = 3"
  shows "\<exists>r. recolor_graph g cs = Inr r"
proof -
  let ?ok = "\<lambda>(names :: string list) n. if names = [] then n = g else wf_node n"
  have "\<exists>r. walk (recolor_visit cs) [] [] g () = Inr r"
  proof (rule walk_total(1) [where ok = ?ok])
    show "\<forall>names l n s. ?ok names n \<longrightarrow> (\<exists>r. recolor_visit cs names l n s = Inr r)"
    proof (intro allI impI)
      fix names :: "string list" and l n s
      assume "?ok names n"
      then have "names = [] \<or> wf_local n"
        using wf_node_here [of n] by (cases "names = []") auto
      then show "\<exists>r. recolor_visit cs names l n s = Inr r"
        using assms(2) by (rule recolor_visit_total)
    qed
    show "\<forall>names n c. ?ok names n \<longrightarrow> c \<in> set (children n) \<longrightarrow>
            nid c \<noteq> None \<and> (\<exists>nm. get_node_name c = Inr nm \<and> ?ok (names @ [nm]) c)"
    proof (intro allI impI)
      fix names :: "string list" and n c
      assume o: "?ok names n" and c: "c \<in> set (children n)"
      have "wf_node c"
        using o c wf_doc_children [OF assms(1)] wf_node_children [of n c]
        by (cases "names = []") auto
      then show "nid c \<noteq> None \<and> (\<exists>nm. get_node_name c = Inr nm \<and> ?ok (names @ [nm]) c)"
        using has_style_id [OF wf_local_has_style [OF wf_node_here [of c]]] by auto
    qed
    show "\<forall>names n gr. ?ok names n \<longrightarrow> ngraph n = Some gr \<longrightarrow> gnode gr \<noteq> None"
    proof (intro allI impI)
      fix names :: "string list" and n gr
      assume o: "?ok names n" and gr: "ngraph n = Some gr"
      show "gnode gr \<noteq> None"
      proof (cases "names = []")
        case True
        with o assms(1) gr show ?thesis using kids_graph [of g gr] by (simp add: wf_doc_def)
      next
        case False
        with o have "every wf_local n" by (simp add: wf_node_def)
        from every_graph [OF this gr] show ?thesis .
      qed
    qed
    show "?ok [] g" by simp
  qed
  then show ?thesis by (auto simp add: recolor_graph_def split: prod.splits)
qed

lemma wf_doc_styled: "wf_doc g \<Longrightarrow> \<forall>x \<in> set (children g). every has_style x"
  using wf_doc_children wf_node_styled by blast

lemma on_path_wf: "wf_doc g \<Longrightarrow> on_path g names n \<Longrightarrow> names \<noteq> [] \<Longrightarrow> wf_node n"
  unfolding on_path_def using wf_lookup [of g names n] wf_doc_children [of g] by simp

lemma on_path_unique: "wf_doc g \<Longrightarrow> on_path g names n \<Longrightarrow> unique_labels n"
  using on_path_wf [of g names n] wf_node_here [of n]
  by (cases "names = []") (auto simp add: on_path_def wf_doc_def wf_local_def)

lemma on_path_child_wf:
  "wf_doc g \<Longrightarrow> on_path g names n \<Longrightarrow> c \<in> set (children n) \<Longrightarrow> wf_node c"
  using on_path_wf [of g names n] wf_node_children [of n c] wf_doc_children [of g c]
  by (cases "names = []") (auto simp add: on_path_def)

lemma on_path_child:
  assumes "wf_doc g" "on_path g names n" "c \<in> set (children n)"
  shows "nid c \<noteq> None \<and> (\<exists>nm. get_node_name c = Inr nm \<and> on_path g (names @ [nm]) c)"
proof -
  have w: "wf_node c" using on_path_child_wf [OF assms] .
  from has_style_id [OF wf_local_has_style [OF wf_node_here [OF w]]]
  obtain nm where i: "nid c \<noteq> None" and nm: "get_node_name c = Inr nm" by blast
  have f: "find (\<lambda>x. get_node_name x = Inr nm) (children n) = Some c"
    using find_unique [OF _ assms(3) nm] on_path_unique [OF assms(1,2)]
    by (simp add: unique_labels_def)
  have "lookup g (names @ [nm]) = Some c"
  proof (cases "names = []")
    case True
    with assms(2) f show ?thesis by (simp add: on_path_def)
  next
    case False
    with assms(2) have "lookup g names = Some n" by (simp add: on_path_def)
    from lookup_snoc [OF this f] show ?thesis .
  qed
  then show ?thesis using i nm by (simp add: on_path_def)
qed

lemma on_path_graph:
  "wf_doc g \<Longrightarrow> on_path g names n \<Longrightarrow> ngraph n = Some gr \<Longrightarrow> gnode gr \<noteq> None"
  using on_path_wf [of g names n] every_graph [of wf_local n gr] kids_graph [of g gr]
  by (cases "names = []") (auto simp add: on_path_def wf_doc_def wf_node_def)

lemma diff_visit_self:
  assumes "wf_doc g" "length (pal_intersect colors) = 3" "on_path g names n"
  shows "diff_visit g colors names l n s =
           Inr (intersect_node colors names n, s(get_node_id n \<mapsto> get_node_id n))"
proof (cases "names = []")
  case True
  from assms(1) obtain ks where "child_nodes g = Inr ks"
    by (auto simp add: wf_doc_def child_nodes_def kids_of_def split: option.splits)
  with True show ?thesis
    by (simp add: diff_visit_def get_node_from_names_def intersect_node_def)
next
  case False
  with assms(3) have l: "lookup g names = Some n" by (simp add: on_path_def)
  from get_node_from_names_total [OF l False wf_doc_styled [OF assms(1)]]
  obtain L where r: "get_node_from_names g names = Inr (Some (L, n))" by blast
  have w: "wf_local n" using wf_node_here [OF on_path_wf [OF assms(1,3) False]] .
  from has_style_id [OF wf_local_has_style [OF w]] obtain nm where nm: "get_node_name n = Inr nm"
    by blast
  have d: "ndata n \<noteq> None" using name_has_data [OF nm] .
  from w obtain cid where c: "get_color_id n = Inr cid"
    by (auto simp add: wf_local_def returns_iff)
  from paint_total [OF c, of "pal_intersect colors"] color_id_less [OF c] assms(2)
  obtain n' where p: "paint (pal_intersect colors) n = Inr n'" by auto
  show ?thesis
    unfolding diff_visit_def Let_def intersect_node_def
    using False r nm d p by simp
qed

lemma diff_walk_self:
  assumes "wf_doc g" "length (pal_intersect colors) = 3"
  shows "\<exists>rm. walk (diff_visit g colors) [] [] g Map.empty =
               Inr (tmapn (intersect_node colors) [] g, rm)"
proof -
  have "\<exists>r. walk (diff_visit g colors) [] [] g Map.empty = Inr r"
  proof (rule walk_total(1) [where ok = "on_path g"])
    show "\<forall>names l n s. on_path g names n \<longrightarrow> (\<exists>r. diff_visit g colors names l n s = Inr r)"
      using diff_visit_self [OF assms] by blast
    show "\<forall>names n c. on_path g names n \<longrightarrow> c \<in> set (children n) \<longrightarrow>
            nid c \<noteq> None \<and> (\<exists>nm. get_node_name c = Inr nm \<and> on_path g (names @ [nm]) c)"
      using on_path_child [OF assms(1)] by blast
    show "\<forall>names n gr. on_path g names n \<longrightarrow> ngraph n = Some gr \<longrightarrow> gnode gr \<noteq> None"
      using on_path_graph [OF assms(1)] by blast
    show "on_path g [] g" by (simp add: on_path_def)
  qed
  then obtain dg0 rm where w: "walk (diff_visit g colors) [] [] g Map.empty = Inr (dg0, rm)"
    by auto
  have "dg0 = tmapn (diff_paint g colors) [] g"
    by (rule walk_tmapn(1) [OF _ w]) (use diff_visit_char in blast)
  also have "\<dots> = tmapn (intersect_node colors) [] g"
  proof (rule tmapn_cong_ok(1) [where ok = "on_path g"])
    show "\<forall>names n. on_path g names n \<longrightarrow>
            nid (diff_paint g colors names n) = nid (intersect_node colors names n) \<and>
            ndata (diff_paint g colors names n) = ndata (intersect_node colors names n)"
      using diff_visit_self [OF assms] by (simp add: diff_paint_def)
    show "\<forall>names n c. on_path g names n \<longrightarrow> c \<in> set (children n) \<longrightarrow>
            on_path g (names @ [label c]) c"
    proof (intro allI impI)
      fix names n c
      assume "on_path g names n" "c \<in> set (children n)"
      from on_path_child [OF assms(1) this] show "on_path g (names @ [label c]) c"
        by (auto simp add: label_def)
    qed
    show "on_path g [] g" by (simp add: on_path_def)
  qed
  finally show ?thesis using w by simp
qed

lemma kids_of_tmapn: "(kids_of (tmapn f names n) = None) = (kids_of n = None)"
  by (cases "(f, names, n)" rule: tmapn.cases) (simp_all add: kids_of_def)

lemma intersect_node_props:
  "get_node_name (intersect_node colors names n) = get_node_name n"
  "nid (intersect_node colors names n) = nid n"
  "has_style n \<Longrightarrow> has_style (intersect_node colors names n)"
  unfolding intersect_node_def has_style_def
  by (auto split: sum.splits dest: paint_Inr)

lemma keeps_label_intersect_node: "keeps_label (intersect_node colors)"
  by (simp add: keeps_label_def intersect_node_props)

lemma intersect_node_color:
  assumes "wf_local n" "names \<noteq> []" "length (pal_intersect colors) = 3"
  shows "\<exists>c \<in> set (pal_intersect colors). get_node_color (intersect_node colors names n) = Inr c"
proof -
  from assms(1) obtain cid where c: "get_color_id n = Inr cid"
    by (auto simp add: wf_local_def returns_iff)
  from paint_total [OF c, of "pal_intersect colors"] color_id_less [OF c] assms(3)
  obtain n' where p: "paint (pal_intersect colors) n = Inr n'" by auto
  from paint_Inr [OF p] obtain k where
    "k < length (pal_intersect colors)" "get_node_color n' = Inr (pal_intersect colors ! k)"
    by blast
  with p assms(2) show ?thesis by (auto simp add: intersect_node_def)
qed

lemma font_20_color: "get_node_color (font_20 names n) = get_node_color n"
  by (simp add: font_20_def color_map_props_font)

lemma self_colors_length:
  "length (pal_g1 self_colors) = 3" "length (pal_g2 self_colors) = 3"
  "length (pal_intersect self_colors) = 3"
  by (simp_all add: self_colors_def)

text \<open>
  C4: for a well-formed document \<open>g\<close> and a colour table with three intersect colours,
  \<^verbatim>\<open>_find_diff\<close> of \<open>g\<close> against itself returns; every node below the root of the result
  carries an intersect colour (so none carries a source-only or other-only colour when the
  table keeps the slots apart); the result has the label paths of \<open>g\<close>; and the node at
  each label path carries the intersect colour of the class that the node of \<open>g\<close> at that
  path has.
\<close>

theorem diff_self_intersect:
  assumes "wf_doc g" "length (pal_intersect colors) = 3"
  shows "\<exists>dg rm self'.
           find_diff (init g g m) Gdict1 Gdict2 colors = Inr ((dg, rm), self') \<and>
           list_all (every (\<lambda>n'. \<exists>c \<in> set (pal_intersect colors). get_node_color n' = Inr c))
             (children dg) \<and>
           (set (pal_intersect colors) \<inter> (set (pal_g1 colors) \<union> set (pal_g2 colors)) = {} \<longrightarrow>
              list_all (every (\<lambda>n'. \<forall>c. get_node_color n' = Inr c \<longrightarrow>
                                        c \<notin> set (pal_g1 colors) \<union> set (pal_g2 colors)))
                (children dg)) \<and>
           (\<forall>p. (lookup dg p = None) = (lookup g p = None)) \<and>
           (\<forall>p a. p \<noteq> [] \<and> lookup g p = Some a \<longrightarrow>
                  (\<exists>a' ca. lookup dg p = Some a' \<and> get_color_id a = Inr ca \<and> ca < 3 \<and>
                           get_node_color a' = Inr (pal_intersect colors ! ca)))"
proof -
  let ?self = "init g g m"
  let ?fi = "intersect_node colors"
  let ?dg0 = "tmapn ?fi [] g"
  let ?Q = "\<lambda>n'. \<exists>c \<in> set (pal_intersect colors). get_node_color n' = Inr c"
  let ?R = "\<lambda>n'. \<forall>c. get_node_color n' = Inr c \<longrightarrow> c \<notin> set (pal_g1 colors) \<union> set (pal_g2 colors)"
  from diff_walk_self [OF assms] obtain rm where
    w: "walk (diff_visit g colors) [] [] g Map.empty = Inr (?dg0, rm)" by blast
  from recolor_graph_total [OF assms(1) self_colors_length(1)] obtain rc1 where
    rc1: "recolor_graph g (pal_g1 self_colors) = Inr rc1" by blast
  from recolor_graph_total [OF assms(1) self_colors_length(2)] obtain rc2 where
    rc2: "recolor_graph g (pal_g2 self_colors) = Inr rc2" by blast
  have k: "kids_of g \<noteq> None" using assms(1) by (simp add: wf_doc_def)
  have st: "\<forall>x \<in> set (children g). every has_style x" using wf_doc_styled [OF assms(1)] .
  from resize_fonts_total [OF k st] obtain r1 where r1: "resize_fonts g 20 = Inr r1" by blast
  have k0: "kids_of ?dg0 \<noteq> None" using k by (simp add: kids_of_tmapn)
  have "every_list has_style (tmapn_list ?fi [] (children g))"
  proof (rule every_tmapn(2) [where P = has_style])
    show "\<forall>names n. names \<noteq> [] \<longrightarrow> has_style n \<longrightarrow> has_style (?fi names n)"
      by (simp add: intersect_node_props)
    show "\<forall>n n'. nid n = nid n' \<and> ndata n = ndata n' \<longrightarrow> has_style n = has_style n'"
      using has_style_cong by blast
    show "every_list has_style (children g)" using st by (simp add: every_list_iff)
  qed
  then have st0: "\<forall>x \<in> set (children ?dg0). every has_style x"
    by (simp add: children_tmapn every_list_iff)
  from resize_fonts_total [OF k0 st0] obtain dg where dg: "resize_fonts ?dg0 20 = Inr dg" by blast
  let ?self' = "?self\<lparr>gdict_1 := r1, gdict_2 := r1, gdict_1_recolor := Some rc1,
                       gdict_2_recolor := Some rc2\<rparr>"
  have fd: "find_diff ?self Gdict1 Gdict2 colors = Inr ((dg, rm), ?self')"
    unfolding find_diff_def using w rc1 rc2 r1 dg by (simp add: init_def)
  have dg_eq: "dg = tmapn font_20 [] ?dg0"
    using resize_fonts_eq [OF dg] by (simp add: fonts_set_def)
  have ch: "children dg = tmapn_list font_20 [] (tmapn_list ?fi [] (children g))"
    by (simp add: dg_eq children_tmapn)
  have wl: "every_list wf_local (children g)"
    using wf_doc_children [OF assms(1)] by (simp add: every_list_iff wf_node_def)
  have qc: "\<forall>n n'. nid n = nid n' \<and> ndata n = ndata n' \<longrightarrow> ?Q n = ?Q n'"
    using color_cong by metis
  have q1: "every_list ?Q (tmapn_list ?fi [] (children g))"
  proof (rule every_tmapn(2) [where P = wf_local, OF _ qc wl])
    show "\<forall>names n. names \<noteq> [] \<longrightarrow> wf_local n \<longrightarrow> ?Q (?fi names n)"
      using intersect_node_color [OF _ _ assms(2)] by blast
  qed
  have q2: "every_list ?Q (children dg)"
    unfolding ch
  proof (rule every_tmapn(2) [where P = ?Q, OF _ qc q1])
    show "\<forall>names n. names \<noteq> [] \<longrightarrow> ?Q n \<longrightarrow> ?Q (font_20 names n)"
      by (simp add: font_20_color)
  qed
  then have c1: "list_all (every ?Q) (children dg)"
    by (simp add: every_list_iff list_all_iff)
  have c2: "set (pal_intersect colors) \<inter> (set (pal_g1 colors) \<union> set (pal_g2 colors)) = {} \<longrightarrow>
            list_all (every ?R) (children dg)"
  proof
    assume dj: "set (pal_intersect colors) \<inter> (set (pal_g1 colors) \<union> set (pal_g2 colors)) = {}"
    have "\<And>n. ?Q n \<Longrightarrow> ?R n" using dj by auto
    from every_mono(2) [of ?Q ?R, OF this q2] show "list_all (every ?R) (children dg)"
      by (simp add: every_list_iff list_all_iff)
  qed
  have c3: "\<forall>p. (lookup dg p = None) = (lookup g p = None)"
    by (simp add: dg_eq lookup_tmapn keeps_label_font_20 keeps_label_intersect_node)
  have c4: "\<forall>p a. p \<noteq> [] \<and> lookup g p = Some a \<longrightarrow>
                  (\<exists>a' ca. lookup dg p = Some a' \<and> get_color_id a = Inr ca \<and> ca < 3 \<and>
                           get_node_color a' = Inr (pal_intersect colors ! ca))"
  proof (intro allI impI)
    fix p a
    assume pa: "p \<noteq> [] \<and> lookup g p = Some a"
    then have l: "lookup (deref ?self Gdict1) p = Some a" "lookup (deref ?self Gdict2) p = Some a"
      by (simp_all add: init_def)
    from find_diff_shared [OF fd _ l] pa obtain a' ca where
      "lookup dg p = Some a'" "get_color_id a = Inr ca"
      "get_node_color a' = Inr (pal_intersect colors ! ca)"
      by blast
    with color_id_less [of a ca]
    show "\<exists>a' ca. lookup dg p = Some a' \<and> get_color_id a = Inr ca \<and> ca < 3 \<and>
                   get_node_color a' = Inr (pal_intersect colors ! ca)"
      by blast
  qed
  from fd c1 c2 c3 c4 show ?thesis by blast
qed

theorem diff_self_intersect_witness:
  "wf_doc doc_a \<and>
   (\<exists>dg rm self' a'.
      find_diff (init doc_a doc_a MatrixMode) Gdict1 Gdict2 self_colors = Inr ((dg, rm), self') \<and>
      lookup dg [''A'', ''a2''] = Some a' \<and> get_node_color a' = Inr ''#d9f4be'')"
proof -
  have wf: "wf_doc doc_a" by code_simp
  have l: "lookup doc_a [''A'', ''a2''] = Some (leaf ''n0::n1'' ''a2'' ''#FFFFFF'')" by code_simp
  have c: "get_color_id (leaf ''n0::n1'' ''a2'' ''#FFFFFF'') = Inr 1" by code_simp
  have p: "pal_intersect self_colors ! 1 = ''#d9f4be''" by (simp add: self_colors_def)
  from diff_self_intersect [OF wf self_colors_length(3), of MatrixMode] obtain dg rm self' where
    f: "find_diff (init doc_a doc_a MatrixMode) Gdict1 Gdict2 self_colors = Inr ((dg, rm), self')"
    and a: "\<forall>p a. p \<noteq> [] \<and> lookup doc_a p = Some a \<longrightarrow>
                  (\<exists>a' ca. lookup dg p = Some a' \<and> get_color_id a = Inr ca \<and> ca < 3 \<and>
                           get_node_color a' = Inr (pal_intersect self_colors ! ca))"
    by blast
  from a [rule_format, of "[''A'', ''a2'']"] l c p obtain a' where
    "lookup dg [''A'', ''a2''] = Some a'" "get_node_color a' = Inr ''#d9f4be''"
    by auto
  with wf f show ?thesis by blast
qed

section \<open>Identifiers of inserted nodes\<close>














end
